theory Spec2Isabelle
  imports Complex_Main
begin

section \<open>The crawl engine of crawler.py\<close>

text \<open>
  A shallow embedding of \<^verbatim>\<open>crawler.py\<close>: the helpers \<^verbatim>\<open>same_domain\<close> and
  \<^verbatim>\<open>normalize_url\<close>, the class \<^verbatim>\<open>RobotsChecker\<close> and the class \<^verbatim>\<open>Crawler\<close> with its
  methods \<^verbatim>\<open>extract_links_and_forms\<close>, \<^verbatim>\<open>fetch\<close> and \<^verbatim>\<open>crawl\<close>.

  Python strings are modelled as \<^typ>\<open>string\<close> (ASCII text), Python integers as
  \<^typ>\<open>int\<close>, the float \<^verbatim>\<open>delay\<close> as a \<^typ>\<open>real\<close> (it is only handed to \<^verbatim>\<open>time.sleep\<close>),
  the dictionary \<^verbatim>\<open>self.results\<close> as an association list in insertion order, the set
  \<^verbatim>\<open>self.visited\<close> as a \<^typ>\<open>string set\<close> and the deque \<^verbatim>\<open>q\<close> as a list whose head is
  its left end. An exception is a value of type \<open>error\<close>.
\<close>

subsection \<open>Exceptions and the outside world\<close>

datatype error = ValueError | IndexError | OverflowError | OtherError string

text \<open>The six components of \<^verbatim>\<open>urllib.parse.ParseResult\<close>.\<close>

record parse_result =
  scheme :: string
  netloc :: string
  path :: string
  params :: string
  query :: string
  fragment :: string

text \<open>What \<^verbatim>\<open>requests.Session.get\<close> hands back: \<^verbatim>\<open>status_code\<close>, \<^verbatim>\<open>text\<close>, \<^verbatim>\<open>headers\<close>.\<close>

record response =
  status_code :: int
  resp_text :: string
  resp_headers :: "(string \<times> string) list"

text \<open>
  The elements BeautifulSoup finds in a document: for a \<^verbatim>\<open>form\<close> its \<^verbatim>\<open>action\<close> and
  \<^verbatim>\<open>method\<close> attributes (absent is \<open>None\<close>) and the \<^verbatim>\<open>input\<close>, \<^verbatim>\<open>textarea\<close> and
  \<^verbatim>\<open>select\<close> elements below it, each with its tag name and its \<^verbatim>\<open>name\<close> and \<^verbatim>\<open>type\<close>
  attributes.
\<close>

record field_tag =
  tag_name :: string
  name_attr :: "string option"
  type_attr :: "string option"

record form_tag =
  action_attr :: "string option"
  method_attr :: "string option"
  field_tags :: "field_tag list"

text \<open>
  A parsed robots.txt, as \<^verbatim>\<open>RobotFileParser.can_fetch(useragent, url)\<close> answers: a
  verdict, or an exception.
\<close>

type_synonym robot_rules = "string \<Rightarrow> string \<Rightarrow> error + bool"

text \<open>
  Everything \<^verbatim>\<open>crawler.py\<close> calls but does not define: the standard library's
  \<^verbatim>\<open>urllib.parse\<close>, \<^verbatim>\<open>urllib.robotparser\<close> and \<^verbatim>\<open>time.sleep\<close>, the \<^verbatim>\<open>requests\<close> session
  and BeautifulSoup. Each is a parameter of the model, so that a theorem stated for every
  \<open>world\<close> holds whatever these libraries and the network do.
  \<^item> \<open>urlparse\<close>, \<open>urljoin\<close>: \<^verbatim>\<open>urllib.parse.urlparse\<close> and \<^verbatim>\<open>urllib.parse.urljoin\<close>; both can
    raise (\<open>Inl\<close>).
  \<^item> \<open>robots_read\<close>: \<^verbatim>\<open>RobotFileParser.set_url(robots_url)\<close> followed by \<^verbatim>\<open>read()\<close>; \<open>Inl\<close>
    when either raises, else the rules the parser then applies.
  \<^item> \<open>session_get\<close>: \<^verbatim>\<open>session.get(url, timeout=15, allow_redirects=True)\<close>; \<open>Inl r\<close> when
    it raises an exception \<^verbatim>\<open>e\<close> with \<^verbatim>\<open>repr(e) = r\<close>.
  \<^item> \<open>find_anchors\<close>: the \<^verbatim>\<open>href\<close> values of \<^verbatim>\<open>soup.find_all("a", href=True)\<close>, in document
    order; \<open>find_forms\<close>: \<^verbatim>\<open>soup.find_all("form")\<close>.
  \<^item> \<open>sleep\<close>: \<^verbatim>\<open>time.sleep(secs)\<close>; \<open>None\<close> when it returns, else the exception it raises
    (\<^verbatim>\<open>ValueError\<close> for a negative length, \<^verbatim>\<open>OverflowError\<close> for a length beyond the
    platform's range of times, an \<^verbatim>\<open>OSError\<close> of the operating system).
\<close>

record world =
  urlparse :: "string \<Rightarrow> error + parse_result"
  urljoin :: "string \<Rightarrow> string \<Rightarrow> error + string"
  robots_read :: "string \<Rightarrow> error + robot_rules"
  session_get :: "string \<Rightarrow> string + response"
  find_anchors :: "string \<Rightarrow> string list"
  find_forms :: "string \<Rightarrow> form_tag list"
  sleep :: "real \<Rightarrow> error option"

subsection \<open>String helpers of Python\<close>

definition startswith :: "string \<Rightarrow> string \<Rightarrow> bool" where
  "startswith s p = (take (length p) s = p)"

text \<open>\<^verbatim>\<open>s.rstrip("/")\<close>.\<close>

definition rstrip_slash :: "string \<Rightarrow> string" where
  "rstrip_slash s = rev (dropWhile (\<lambda>c. c = CHR ''/'') (rev s))"

text \<open>\<^verbatim>\<open>link.split("#")[0]\<close>: the text before the first \<^verbatim>\<open>#\<close>.\<close>

definition before_hash :: "string \<Rightarrow> string" where
  "before_hash link = takeWhile (\<lambda>c. c \<noteq> CHR ''#'') link"

text \<open>The characters \<^verbatim>\<open>str.strip()\<close> removes, within ASCII.\<close>

definition is_space :: "char \<Rightarrow> bool" where
  "is_space c = (c \<in> set [CHR 0x09, CHR 0x0A, CHR 0x0B, CHR 0x0C, CHR 0x0D,
                            CHR 0x1C, CHR 0x1D, CHR 0x1E, CHR 0x1F, CHR '' ''])"

definition strip :: "string \<Rightarrow> string" where
  "strip s = rev (dropWhile is_space (rev (dropWhile is_space s)))"

definition lower_char :: "char \<Rightarrow> char" where
  "lower_char c =
     (case map_of (zip ''ABCDEFGHIJKLMNOPQRSTUVWXYZ'' ''abcdefghijklmnopqrstuvwxyz'') c of
        None \<Rightarrow> c | Some l \<Rightarrow> l)"

definition lower :: "string \<Rightarrow> string" where
  "lower s = map lower_char s"

subsection \<open>Utility helpers\<close>

text \<open>
  \<^verbatim>\<open>same_domain\<close>: the two \<^verbatim>\<open>netloc\<close>s are compared as strings; an exception of either
  \<^verbatim>\<open>urlparse\<close> gives \<^verbatim>\<open>False\<close>.
\<close>

definition same_domain :: "world \<Rightarrow> string \<Rightarrow> string \<Rightarrow> bool" where
  "same_domain w base other =
     (case urlparse w base of
        Inl e \<Rightarrow> False
      | Inr b \<Rightarrow> (case urlparse w other of
                    Inl e \<Rightarrow> False
                  | Inr p \<Rightarrow> netloc b = netloc p))"

definition normalize_url :: "world \<Rightarrow> string \<Rightarrow> string \<Rightarrow> error + string" where
  "normalize_url w base link = urljoin w base (before_hash link)"

subsection \<open>RobotsChecker\<close>

record robots_checker =
  rp :: "robot_rules option"
  rc_user_agent :: string

definition robots_url :: "parse_result \<Rightarrow> string" where
  "robots_url parsed = scheme parsed @ ''://'' @ netloc parsed @ ''/robots.txt''"

text \<open>
  \<^verbatim>\<open>RobotsChecker.__init__\<close>. The \<^verbatim>\<open>urlparse\<close> of the base URL is outside the \<^verbatim>\<open>try\<close>,
  so its exception leaves the constructor; an exception of \<^verbatim>\<open>set_url\<close> or \<^verbatim>\<open>read\<close> sets
  \<^verbatim>\<open>self.rp = None\<close>.
\<close>

definition RobotsChecker_init :: "world \<Rightarrow> string \<Rightarrow> string \<Rightarrow> error + robots_checker" where
  "RobotsChecker_init w base_url ua =
     (case urlparse w base_url of
        Inl e \<Rightarrow> Inl e
      | Inr parsed \<Rightarrow>
          Inr \<lparr> rp = (case robots_read w (robots_url parsed) of
                         Inl e \<Rightarrow> None
                       | Inr rules \<Rightarrow> Some rules),
                rc_user_agent = ua \<rparr>)"

definition can_fetch :: "robots_checker \<Rightarrow> string \<Rightarrow> bool" where
  "can_fetch rc url =
     (case rp rc of
        None \<Rightarrow> True
      | Some rules \<Rightarrow> (case rules (rc_user_agent rc) url of
                        Inl e \<Rightarrow> True
                      | Inr b \<Rightarrow> b))"

subsection \<open>Crawler\<close>

text \<open>
  A form dictionary, whose key \<^verbatim>\<open>"method"\<close> is the field \<open>form_method\<close>, and the same
  after \<^verbatim>\<open>resolved_action\<close> has been added to it.
\<close>

record form =
  action :: string
  form_method :: string
  inputs :: "(string option \<times> string) list"

record resolved_form = form +
  resolved_action :: string

text \<open>
  The dictionary \<^verbatim>\<open>page_data\<close>; the key \<^verbatim>\<open>"error"\<close> is present only in the \<^verbatim>\<open>else\<close>
  branch, hence an option.
\<close>

record page_data =
  url :: string
  status :: int
  headers :: "(string \<times> string) list"
  depth :: int
  forms :: "resolved_form list"
  out_links :: "string list"
  error :: "string option"

text \<open>
  A value of \<^verbatim>\<open>self.results\<close>: either \<^verbatim>\<open>{"skipped": reason}\<close>, which has no other key,
  or a \<^verbatim>\<open>page_data\<close>.
\<close>

datatype entry = Skipped string | Page page_data

type_synonym results_dict = "(string \<times> entry) list"

text \<open>
  \<^verbatim>\<open>d[k] = v\<close> on a Python dictionary: an existing key keeps its place, a new key goes
  to the end.
\<close>

fun dict_set :: "('k \<times> 'v) list \<Rightarrow> 'k \<Rightarrow> 'v \<Rightarrow> ('k \<times> 'v) list" where
  "dict_set [] k v = [(k, v)]"
| "dict_set ((k', v') # d) k v = (if k' = k then (k, v) # d else (k', v') # dict_set d k v)"

record crawler =
  start_url :: string
  max_pages :: int
  max_depth :: int
  delay :: real
  user_agent :: string
  allowed_external :: bool
  robots :: robots_checker
  visited :: "string set"
  results :: results_dict

text \<open>\<^verbatim>\<open>Crawler.__init__\<close>; it raises when the constructor of the robots helper does.\<close>

definition Crawler_init ::
  "world \<Rightarrow> string \<Rightarrow> int \<Rightarrow> int \<Rightarrow> real \<Rightarrow> string \<Rightarrow> bool \<Rightarrow> error + crawler" where
  "Crawler_init w start mp md dl ua ext =
     (case RobotsChecker_init w (rstrip_slash start) ua of
        Inl e \<Rightarrow> Inl e
      | Inr rc \<Rightarrow>
          Inr \<lparr> start_url = rstrip_slash start, max_pages = mp, max_depth = md, delay = dl,
                user_agent = ua, allowed_external = ext, robots = rc,
                visited = {}, results = [] \<rparr>)"

definition form_of_tag :: "form_tag \<Rightarrow> form" where
  "form_of_tag t =
     \<lparr> action = (case action_attr t of None \<Rightarrow> [] | Some a \<Rightarrow> a),
       form_method = lower (case method_attr t of None \<Rightarrow> ''get'' | Some m \<Rightarrow> m),
       inputs = map (\<lambda>i. (name_attr i,
                          (case type_attr i of None \<Rightarrow> tag_name i | Some ty \<Rightarrow> ty)))
                    (field_tags t) \<rparr>"

definition extract_links_and_forms :: "world \<Rightarrow> string \<Rightarrow> string \<Rightarrow> string list \<times> form list" where
  "extract_links_and_forms w u html =
     (filter (\<lambda>href. href \<noteq> []) (map strip (find_anchors w html)),
      map form_of_tag (find_forms w html))"

text \<open>\<^verbatim>\<open>fetch\<close>: a transport failure comes back in band, as status 0 and a marked body.\<close>

definition fetch :: "world \<Rightarrow> string \<Rightarrow> int \<times> string \<times> (string \<times> string) list" where
  "fetch w u =
     (case session_get w u of
        Inl r \<Rightarrow> (0, ''__fetch_error__:'' @ r, [])
      | Inr resp \<Rightarrow> (status_code resp, resp_text resp, resp_headers resp))"

type_synonym frontier = "(string \<times> int) list"

text \<open>
  The loop \<^verbatim>\<open>for link in links\<close> of \<^verbatim>\<open>crawl\<close>, on the triple of the list
  \<^verbatim>\<open>normalized\<close>, the queue and the crawler (whose \<^verbatim>\<open>visited\<close> set it extends).
\<close>

fun link_loop ::
  "world \<Rightarrow> string \<Rightarrow> int \<Rightarrow> string list \<Rightarrow> string list \<times> frontier \<times> crawler
     \<Rightarrow> string list \<times> frontier \<times> crawler" where
  "link_loop w u d [] acc = acc"
| "link_loop w u d (link # links) (normalized, q, c) =
     (case normalize_url w u link of
        Inl e \<Rightarrow> link_loop w u d links (normalized, q, c)
      | Inr n \<Rightarrow>
          if startswith n ''mailto:'' \<or> startswith n ''javascript:''
          then link_loop w u d links (normalized, q, c)
          else if \<not> allowed_external c \<and> \<not> same_domain w (start_url c) n
          then link_loop w u d links (normalized, q, c)
          else if n \<notin> visited c \<and> d + 1 \<le> max_depth c
                  \<and> int (length (results c)) + int (length q) < max_pages c
          then link_loop w u d links
                 (normalized @ [n], q @ [(n, d + 1)], c\<lparr>visited := insert n (visited c)\<rparr>)
          else link_loop w u d links (normalized @ [n], q, c))"

text \<open>
  The loop \<^verbatim>\<open>for f in forms\<close>: \<^verbatim>\<open>normalize_url\<close> is called outside any \<^verbatim>\<open>try\<close> here, so
  its exception ends the loop (and \<^verbatim>\<open>crawl\<close>).
\<close>

fun resolve_forms :: "world \<Rightarrow> string \<Rightarrow> form list \<Rightarrow> error + resolved_form list" where
  "resolve_forms w u [] = Inr []"
| "resolve_forms w u (f # fs) =
     (case (if action f \<noteq> [] then normalize_url w u (action f) else Inr u) of
        Inl e \<Rightarrow> Inl e
      | Inr ra \<Rightarrow>
          (case resolve_forms w u fs of
             Inl e \<Rightarrow> Inl e
           | Inr rs \<Rightarrow> Inr (form.extend f (resolved_form.fields ra) # rs)))"

text \<open>
  One pass through the body of \<^verbatim>\<open>while q and len(self.results) < self.max_pages\<close>. The
  result is the exception that left the body, if any, and the queue and the crawler
  object as the pass left them (an exception keeps the mutations made before it). The
  pass ends with \<^verbatim>\<open>time.sleep(self.delay)\<close>, whose exception, if it raises, leaves the
  body after the record has been stored. The \<^verbatim>\<open>print\<close> is left out.
\<close>

definition crawl_body :: "world \<Rightarrow> frontier \<Rightarrow> crawler \<Rightarrow> error option \<times> frontier \<times> crawler" where
  "crawl_body w q c =
     (case q of
        [] \<Rightarrow> (Some IndexError, q, c)
      | (u, d) # q1 \<Rightarrow>
          if d > max_depth c then (None, q1, c)
          else if \<not> can_fetch (robots c) u
          then (None, q1, c\<lparr>results := dict_set (results c) u (Skipped ''blocked_by_robots'')\<rparr>)
          else
            (case fetch w u of (st, html_or_err, hs) \<Rightarrow>
               let page = \<lparr> url = u, status = st, headers = hs, depth = d,
                            forms = [], out_links = [], error = None \<rparr>
               in if st = 200 \<and> \<not> startswith html_or_err ''__fetch_error__''
                  then
                    (case extract_links_and_forms w u html_or_err of (links, fs) \<Rightarrow>
                       (case link_loop w u d links ([], q1, c) of (normalized, q2, c2) \<Rightarrow>
                          (case resolve_forms w u fs of
                             Inl e \<Rightarrow> (Some e, q2, c2)
                           | Inr resolved \<Rightarrow>
                               (sleep w (delay c2), q2,
                                c2\<lparr>results := dict_set (results c2) u
                                     (Page (page\<lparr>forms := resolved, out_links := normalized\<rparr>))\<rparr>))))
                  else
                    (sleep w (delay c), q1,
                     c\<lparr>results := dict_set (results c) u
                          (Page (page\<lparr>error := Some html_or_err\<rparr>))\<rparr>)))"

definition loop_cond :: "frontier \<Rightarrow> crawler \<Rightarrow> bool" where
  "loop_cond q c = (q \<noteq> [] \<and> int (length (results c)) < max_pages c)"

text \<open>
  The \<^verbatim>\<open>while\<close> loop. Its value is \<open>None\<close> when it runs forever, and otherwise the
  exception that ended it, if any, with the crawler object it leaves behind; \<^verbatim>\<open>crawl\<close>
  returns \<^verbatim>\<open>self.results\<close> of that object when there is no exception.
\<close>

partial_function (option) crawl_loop ::
  "world \<Rightarrow> frontier \<Rightarrow> crawler \<Rightarrow> (error option \<times> crawler) option" where
  "crawl_loop w q c =
     (if loop_cond q c
      then (case crawl_body w q c of
              (Some e, q', c') \<Rightarrow> Some (Some e, c')
            | (None, q', c') \<Rightarrow> crawl_loop w q' c')
      else Some (None, c))"

definition crawl_start :: "crawler \<Rightarrow> frontier \<times> crawler" where
  "crawl_start c = ([(start_url c, 0)], c\<lparr>visited := insert (start_url c) (visited c)\<rparr>)"

definition crawl :: "world \<Rightarrow> crawler \<Rightarrow> (error option \<times> crawler) option" where
  "crawl w c = (case crawl_start c of (q, c1) \<Rightarrow> crawl_loop w q c1)"

subsection \<open>The standard library's URL functions\<close>

text \<open>
  A model of \<^verbatim>\<open>urllib.parse\<close> (CPython 3.11: \<^verbatim>\<open>urlsplit\<close>, \<^verbatim>\<open>urlparse\<close>, \<^verbatim>\<open>urlunparse\<close>,
  \<^verbatim>\<open>urljoin\<close>) for ASCII text, function by function. It is not code of \<^verbatim>\<open>crawler.py\<close>;
  it instantiates the \<open>urlparse\<close> and \<open>urljoin\<close> of a \<open>world\<close> in the concrete runs
  below. One check of the library is left out: the validation of a bracketed IPv6
  literal through the \<^verbatim>\<open>ipaddress\<close> module (a netloc with both brackets is accepted
  as it is).
\<close>

definition uses_relative :: "string list" where
  "uses_relative = ['''', ''ftp'', ''http'', ''gopher'', ''nntp'', ''imap'', ''wais'', ''file'',
     ''https'', ''shttp'', ''mms'', ''prospero'', ''rtsp'', ''rtsps'', ''rtspu'', ''sftp'',
     ''svn'', ''svn+ssh'', ''ws'', ''wss'']"

definition uses_netloc :: "string list" where
  "uses_netloc = ['''', ''ftp'', ''http'', ''gopher'', ''nntp'', ''telnet'', ''imap'', ''wais'',
     ''file'', ''mms'', ''https'', ''shttp'', ''snews'', ''prospero'', ''rtsp'', ''rtsps'',
     ''rtspu'', ''rsync'', ''svn'', ''svn+ssh'', ''sftp'', ''nfs'', ''git'', ''git+ssh'',
     ''ws'', ''wss'']"

definition uses_params :: "string list" where
  "uses_params = ['''', ''ftp'', ''hdl'', ''prospero'', ''http'', ''imap'', ''https'', ''shttp'',
     ''rtsp'', ''rtsps'', ''rtspu'', ''sip'', ''sips'', ''mms'', ''sftp'', ''tel'']"

definition ascii_letters :: string where
  "ascii_letters = ''abcdefghijklmnopqrstuvwxyzABCDEFGHIJKLMNOPQRSTUVWXYZ''"

definition scheme_chars :: string where
  "scheme_chars = ascii_letters @ ''0123456789+-.''"

text \<open>The characters of \<^verbatim>\<open>_WHATWG_C0_CONTROL_OR_SPACE\<close>: code points 0 to 32.\<close>

definition c0_control_or_space :: "char \<Rightarrow> bool" where
  "c0_control_or_space c = ((of_char c :: nat) \<le> 32)"

text \<open>Removal of \<^verbatim>\<open>_UNSAFE_URL_BYTES_TO_REMOVE\<close>: tab, carriage return, newline.\<close>

definition remove_unsafe :: "string \<Rightarrow> string" where
  "remove_unsafe s = filter (\<lambda>c. c \<notin> set [CHR 0x09, CHR 0x0D, CHR 0x0A]) s"

text \<open>
  \<^verbatim>\<open>a, b = s.split(ch, 1)\<close> for a string that contains \<^verbatim>\<open>ch\<close>; without it, the whole
  string and the empty string.
\<close>

definition split_at :: "char \<Rightarrow> string \<Rightarrow> string \<times> string" where
  "split_at ch s = (takeWhile (\<lambda>c. c \<noteq> ch) s, drop 1 (dropWhile (\<lambda>c. c \<noteq> ch) s))"

text \<open>The scheme step of \<^verbatim>\<open>urlsplit\<close>: the scheme found, or the default, and the rest.\<close>

definition split_scheme :: "string \<Rightarrow> string \<Rightarrow> string \<times> string" where
  "split_scheme u dflt =
     (let pre = takeWhile (\<lambda>c. c \<noteq> CHR '':'') u
      in if CHR '':'' \<in> set u \<and> pre \<noteq> [] \<and> hd pre \<in> set ascii_letters
            \<and> (\<forall>c \<in> set pre. c \<in> set scheme_chars)
         then (lower pre, drop (length pre + 1) u)
         else (dflt, u))"

definition splitnetloc :: "string \<Rightarrow> string \<times> string" where
  "splitnetloc u =
     (takeWhile (\<lambda>c. c \<notin> set ''/?#'') u, dropWhile (\<lambda>c. c \<notin> set ''/?#'') u)"

text \<open>\<^verbatim>\<open>urlsplit(url, scheme)\<close>: scheme, netloc, path, query, fragment.\<close>

definition urlsplit :: "string \<Rightarrow> string \<Rightarrow> error + string \<times> string \<times> string \<times> string \<times> string" where
  "urlsplit u0 scheme0 =
     (let u1 = remove_unsafe (dropWhile c0_control_or_space u0);
          s1 = remove_unsafe (rev (dropWhile c0_control_or_space
                                    (rev (dropWhile c0_control_or_space scheme0))));
          (sch, u2) = split_scheme u1 s1;
          (nl, u3) = (if take 2 u2 = ''//'' then splitnetloc (drop 2 u2) else ([], u2))
      in if (CHR ''['' \<in> set nl) \<noteq> (CHR '']'' \<in> set nl) then Inl ValueError
         else
           let (u4, frag) = (if CHR ''#'' \<in> set u3 then split_at CHR ''#'' u3 else (u3, []));
               (u5, qry) = (if CHR ''?'' \<in> set u4 then split_at CHR ''?'' u4 else (u4, []))
           in Inr (sch, nl, u5, qry, frag))"

text \<open>\<^verbatim>\<open>_splitparams\<close>, called on a path that contains a semicolon.\<close>

definition splitparams :: "string \<Rightarrow> string \<times> string" where
  "splitparams u =
     (if CHR ''/'' \<in> set u
      then (let k = length (dropWhile (\<lambda>c. c \<noteq> CHR ''/'') (rev u)) - 1;
                dir = take k u; lst = drop k u
            in if CHR '';'' \<in> set lst
               then (dir @ fst (split_at CHR '';'' lst), snd (split_at CHR '';'' lst))
               else (u, []))
      else split_at CHR '';'' u)"

definition py_urlparse :: "string \<Rightarrow> string \<Rightarrow> error + parse_result" where
  "py_urlparse u scheme0 =
     (case urlsplit u scheme0 of
        Inl e \<Rightarrow> Inl e
      | Inr (sch, nl, p, qry, frag) \<Rightarrow>
          let (p', prm) = (if sch \<in> set uses_params \<and> CHR '';'' \<in> set p
                           then splitparams p else (p, []))
          in Inr \<lparr> scheme = sch, netloc = nl, path = p', params = prm,
                    query = qry, fragment = frag \<rparr>)"

definition urlunsplit :: "string \<Rightarrow> string \<Rightarrow> string \<Rightarrow> string \<Rightarrow> string \<Rightarrow> string" where
  "urlunsplit sch nl u qry frag =
     (let u1 = (if nl \<noteq> [] \<or> (sch \<noteq> [] \<and> sch \<in> set uses_netloc) \<or> take 2 u = ''//''
                then ''//'' @ nl @ (if u \<noteq> [] \<and> take 1 u \<noteq> ''/'' then ''/'' @ u else u)
                else u);
          u2 = (if sch \<noteq> [] then sch @ '':'' @ u1 else u1);
          u3 = (if qry \<noteq> [] then u2 @ ''?'' @ qry else u2)
      in if frag \<noteq> [] then u3 @ ''#'' @ frag else u3)"

definition urlunparse :: "parse_result \<Rightarrow> string" where
  "urlunparse r =
     urlunsplit (scheme r) (netloc r)
       (if params r \<noteq> [] then path r @ '';'' @ params r else path r) (query r) (fragment r)"

text \<open>\<^verbatim>\<open>s.split("/")\<close> and \<^verbatim>\<open>"/".join(parts)\<close>.\<close>

fun split_slash :: "string \<Rightarrow> string list" where
  "split_slash [] = [[]]"
| "split_slash (c # s) =
     (if c = CHR ''/'' then [] # split_slash s
      else (case split_slash s of [] \<Rightarrow> [[c]] | p # ps \<Rightarrow> (c # p) # ps))"

fun join_slash :: "string list \<Rightarrow> string" where
  "join_slash [] = []"
| "join_slash [p] = p"
| "join_slash (p # ps) = p @ ''/'' @ join_slash ps"

text \<open>The loop over \<^verbatim>\<open>segments\<close> in \<^verbatim>\<open>urljoin\<close>, which builds \<^verbatim>\<open>resolved_path\<close>.\<close>

fun resolve_segments :: "string list \<Rightarrow> string list \<Rightarrow> string list" where
  "resolve_segments [] resolved = resolved"
| "resolve_segments (seg # segs) resolved =
     (if seg = ''..'' then resolve_segments segs (butlast resolved)
      else if seg = ''.'' then resolve_segments segs resolved
      else resolve_segments segs (resolved @ [seg]))"

definition py_urljoin :: "string \<Rightarrow> string \<Rightarrow> error + string" where
  "py_urljoin base u =
     (if base = [] then Inr u
      else if u = [] then Inr base
      else
        (case py_urlparse base [] of
           Inl e \<Rightarrow> Inl e
         | Inr b \<Rightarrow>
             (case py_urlparse u (scheme b) of
                Inl e \<Rightarrow> Inl e
              | Inr r \<Rightarrow>
                  if scheme r \<noteq> scheme b \<or> scheme r \<notin> set uses_relative then Inr u
                  else if scheme r \<in> set uses_netloc \<and> netloc r \<noteq> []
                  then Inr (urlunparse r)
                  else
                    let nl = (if scheme r \<in> set uses_netloc then netloc b else netloc r)
                    in if path r = [] \<and> params r = []
                       then Inr (urlunparse
                              (r\<lparr>netloc := nl, path := path b, params := params b,
                                 query := (if query r = [] then query b else query r)\<rparr>))
                       else
                         let bp0 = split_slash (path b);
                             base_parts = (if last bp0 \<noteq> [] then butlast bp0 else bp0);
                             segs0 = base_parts @ split_slash (path r);
                             segments =
                               (if take 1 (path r) = ''/'' then split_slash (path r)
                                else if length segs0 < 2 then segs0
                                else hd segs0 # filter (\<lambda>s. s \<noteq> []) (butlast (tl segs0))
                                       @ [last segs0]);
                             resolved0 = resolve_segments segments [];
                             resolved = (if last segments \<in> set [''.'', ''..'']
                                         then resolved0 @ [[]] else resolved0);
                             joined = join_slash resolved
                         in Inr (urlunparse
                                  (r\<lparr>netloc := nl,
                                     path := (if joined = [] then ''/'' else joined)\<rparr>)))))"

declare crawl_loop.simps [code]

text \<open>
  What \<^verbatim>\<open>main\<close> does before it saves: \<^verbatim>\<open>c = Crawler(...)\<close>, then
  \<^verbatim>\<open>results = c.crawl()\<close>. The value is the exception (\<open>Inl\<close>) or the returned
  dictionary, and \<open>None\<close> if the loop never ends.
\<close>

definition main_crawl ::
  "world \<Rightarrow> string \<Rightarrow> int \<Rightarrow> int \<Rightarrow> real \<Rightarrow> string \<Rightarrow> bool \<Rightarrow> (error + results_dict) option" where
  "main_crawl w start mp md dl ua ext =
     (case Crawler_init w start mp md dl ua ext of
        Inl e \<Rightarrow> Some (Inl e)
      | Inr c \<Rightarrow>
          (case crawl w c of
             None \<Rightarrow> None
           | Some (Some e, c') \<Rightarrow> Some (Inl e)
           | Some (None, c') \<Rightarrow> Some (Inr (results c'))))"


subsection \<open>The points of a run\<close>

text \<open>
  \<open>reach w c0 enq deq (e, q, c)\<close>: a call of \<^verbatim>\<open>crawl\<close> on the crawler \<open>c0\<close> can be at the
  point where the queue is \<open>q\<close> and the crawler object is \<open>c\<close>, either at the loop test
  (\<open>e = None\<close>) or where the exception \<open>e\<close> has just left the loop body. The points are
  the entry of the loop and the end of every pass through its body. \<open>enq\<close> lists the
  URLs appended to the queue so far and \<open>deq\<close> the URLs popped from it so far, both in
  order: a pass pops the head of \<open>q\<close> and appends what \<open>q'\<close> holds beyond the tail of \<open>q\<close>.
\<close>

inductive reach ::
  "world \<Rightarrow> crawler \<Rightarrow> string list \<Rightarrow> string list \<Rightarrow> error option \<times> frontier \<times> crawler \<Rightarrow> bool"
  for w c0 where
  reach_start: "crawl_start c0 = (q, c) \<Longrightarrow> reach w c0 (map fst q) [] (None, q, c)"
| reach_body: "reach w c0 enq deq (None, q, c) \<Longrightarrow> loop_cond q c
     \<Longrightarrow> crawl_body w q c = (e, q', c')
     \<Longrightarrow> reach w c0 (enq @ map fst (drop (length q - 1) q')) (deq @ [fst (hd q)]) (e, q', c')"

text \<open>
  What the link loop of a page \<open>u\<close> with the extracted links \<open>links\<close> lets through: \<open>n\<close>
  is the normalisation of one of the links, it starts with neither of the two filtered
  prefixes, and it passes the scope test.
\<close>

definition link_ok :: "world \<Rightarrow> crawler \<Rightarrow> string \<Rightarrow> string list \<Rightarrow> string \<Rightarrow> bool" where
  "link_ok w c u links n =
     ((\<exists>link \<in> set links. normalize_url w u link = Inr n)
      \<and> \<not> startswith n ''mailto:'' \<and> \<not> startswith n ''javascript:''
      \<and> (allowed_external c \<or> same_domain w (start_url c) n))"

text \<open>
  What holds of every entry \<open>en\<close> stored under a key \<open>k\<close>: it is the entry the loop body
  builds for the URL \<open>k\<close> from the verdict of the robots helper and the outcome of the
  fetch.
\<close>

definition entry_inv :: "world \<Rightarrow> crawler \<Rightarrow> string \<Rightarrow> entry \<Rightarrow> bool" where
  "entry_inv w c k en =
     (case en of
        Skipped r \<Rightarrow> r = ''blocked_by_robots'' \<and> \<not> can_fetch (robots c) k
      | Page p \<Rightarrow>
          can_fetch (robots c) k \<and> url p = k \<and> depth p \<le> max_depth c
          \<and> (case fetch w k of (st, body, hs) \<Rightarrow>
                status p = st \<and> headers p = hs
                \<and> (if st = 200 \<and> \<not> startswith body ''__fetch_error__''
                    then error p = None
                         \<and> (\<forall>n \<in> set (out_links p).
                               link_ok w c k (fst (extract_links_and_forms w k body)) n)
                         \<and> resolve_forms w k (snd (extract_links_and_forms w k body))
                             = Inr (forms p)
                    else error p = Some body \<and> out_links p = [] \<and> forms p = [])))"

subsection \<open>Two notions of the specification\<close>

text \<open>
  The origin of a URL in the words of the specification's glossary, scheme + host +
  port: the scheme and the netloc without the userinfo, which ends at the last \<^verbatim>\<open>@\<close>.
  The code has no such notion; \<open>spec_origin\<close> serves only to state C1 as it is written.
\<close>

definition after_userinfo :: "string \<Rightarrow> string" where
  "after_userinfo nl = rev (takeWhile (\<lambda>c. c \<noteq> CHR ''@'') (rev nl))"

definition spec_origin :: "world \<Rightarrow> string \<Rightarrow> error + string \<times> string" where
  "spec_origin w u =
     (case urlparse w u of
        Inl e \<Rightarrow> Inl e
      | Inr p \<Rightarrow> Inr (scheme p, after_userinfo (netloc p)))"

text \<open>
  The gate in the words of section 4.2 of the specification, which answers a query for
  a URL from the robots.txt of that URL's own origin: the answer of a robots helper
  built for the queried URL itself. \<open>spec_can_fetch\<close> serves only to state C8 as it is
  written.
\<close>

definition spec_can_fetch :: "world \<Rightarrow> string \<Rightarrow> string \<Rightarrow> error + bool" where
  "spec_can_fetch w ua u =
     (case RobotsChecker_init w u ua of
        Inl e \<Rightarrow> Inl e
      | Inr rc \<Rightarrow> Inr (can_fetch rc u))"

subsection \<open>Concrete sites\<close>

text \<open>
  \<^verbatim>\<open>time.sleep\<close> of CPython 3.11, as far as the interpreter itself decides: the length is
  converted to nanoseconds, rounded away from zero, in a signed 64-bit integer, with
  \<^verbatim>\<open>OverflowError\<close> outside its range; a negative length raises \<^verbatim>\<open>ValueError\<close>. The
  length is the real number the float stands for. What the operating system refuses, a
  length that reaches past the end of its clock, is not modelled here; the concrete runs
  below sleep for one second.
\<close>

definition py_sleep :: "real \<Rightarrow> error option" where
  "py_sleep secs =
     (let ns = (if 0 \<le> secs then \<lceil>secs * 1000000000\<rceil> else \<lfloor>secs * 1000000000\<rfloor>)
      in if ns < - (2 ^ 63) \<or> 2 ^ 63 \<le> ns then Some OverflowError
         else if ns < 0 then Some ValueError
         else None)"

text \<open>
  A world with the URL functions of the standard library, as modelled above, pages
  without forms, and \<open>py_sleep\<close>.
\<close>

definition site_world ::
  "(string \<Rightarrow> string + response) \<Rightarrow> (string \<Rightarrow> string list)
     \<Rightarrow> (string \<Rightarrow> error + robot_rules) \<Rightarrow> world" where
  "site_world get anchors rr =
     \<lparr> urlparse = (\<lambda>u. py_urlparse u []), urljoin = py_urljoin, robots_read = rr,
       session_get = get, find_anchors = anchors, find_forms = (\<lambda>html. []),
       sleep = py_sleep \<rparr>"

text \<open>No robots.txt can be read: \<^verbatim>\<open>read()\<close> raises.\<close>

definition no_robots :: "string \<Rightarrow> error + robot_rules" where
  "no_robots u = Inl (OtherError ''URLError'')"

definition default_user_agent :: string where
  "default_user_agent = ''WebScanProCrawler/1.0 (+https://example.com)''"

text \<open>
  The site \<^verbatim>\<open>x.test\<close> with a single page, whose anchors are \<open>hrefs\<close>; every other
  http or https URL is answered with status 404, and a URL of another scheme makes
  \<^verbatim>\<open>session.get\<close> raise.
\<close>

definition one_page :: "string list \<Rightarrow> world" where
  "one_page hrefs = site_world
     (\<lambda>u. if u = ''http://x.test''
          then Inr \<lparr> status_code = 200, resp_text = ''index'', resp_headers = [] \<rparr>
          else if startswith u ''http://'' \<or> startswith u ''https://''
          then Inr \<lparr> status_code = 404, resp_text = ''Not Found'', resp_headers = [] \<rparr>
          else Inl ''InvalidSchema()'')
     (\<lambda>html. if html = ''index'' then hrefs else [])
     no_robots"

text \<open>
  The crawler \<^verbatim>\<open>Crawler("http://x.test/", max_pages=10, max_depth=1)\<close> on a site
  without a readable robots.txt.
\<close>

definition x_crawler :: crawler where
  "x_crawler =
     \<lparr> start_url = ''http://x.test'', max_pages = 10, max_depth = 1, delay = 1,
       user_agent = default_user_agent, allowed_external = False,
       robots = \<lparr> rp = None, rc_user_agent = default_user_agent \<rparr>,
       visited = {}, results = [] \<rparr>"

text \<open>
  A site that answers every http or https URL with status 200 and a page whose body
  starts with the marker of \<^verbatim>\<open>fetch\<close> and which holds an anchor; a URL of another scheme
  makes \<^verbatim>\<open>session.get\<close> raise.
\<close>

definition marker_site :: world where
  "marker_site = site_world
     (\<lambda>u. if startswith u ''http://'' \<or> startswith u ''https://''
          then Inr \<lparr> status_code = 200,
                     resp_text = ''__fetch_error__ is a word of this page'',
                     resp_headers = [] \<rparr>
          else Inl ''InvalidSchema()'')
     (\<lambda>html. [''/a''])
     no_robots"

text \<open>
  Two sites: \<^verbatim>\<open>a.test\<close>, whose robots.txt allows everything and whose page links to
  \<^verbatim>\<open>http://b.test/secret\<close>, and \<^verbatim>\<open>b.test\<close>, whose robots.txt disallows everything.
\<close>

definition two_sites :: world where
  "two_sites = site_world
     (\<lambda>u. if u = ''http://a.test''
          then Inr \<lparr> status_code = 200, resp_text = ''index'', resp_headers = [] \<rparr>
          else Inr \<lparr> status_code = 200, resp_text = ''secret'', resp_headers = [] \<rparr>)
     (\<lambda>html. if html = ''index'' then [''http://b.test/secret''] else [])
     (\<lambda>u. if u = ''http://a.test/robots.txt'' then Inr (\<lambda>ua url. Inr True)
          else if u = ''http://b.test/robots.txt'' then Inr (\<lambda>ua url. Inr False)
          else Inl (OtherError ''URLError''))"

text \<open>
  The scenario of the specification: the single page of \<^verbatim>\<open>x.test\<close> links to \<^verbatim>\<open>/a\<close> and
  to \<^verbatim>\<open>https://other.test/\<close>.
\<close>

definition x_test :: world where
  "x_test = one_page [''/a'', ''https://other.test/'']"

definition x_result :: results_dict where
  "x_result =
     [(''http://x.test'',
       Page \<lparr> url = ''http://x.test'', status = 200, headers = [], depth = 0, forms = [],
              out_links = [''http://x.test/a''], error = None \<rparr>),
      (''http://x.test/a'',
       Page \<lparr> url = ''http://x.test/a'', status = 404, headers = [], depth = 1, forms = [],
              out_links = [], error = Some ''Not Found'' \<rparr>)]"

text \<open>The crawler object of that scenario after the first pass and at the end.\<close>

definition x_mid :: crawler where
  "x_mid = x_crawler\<lparr>visited := {''http://x.test'', ''http://x.test/a''},
                     results := [hd x_result]\<rparr>"

definition x_final :: crawler where
  "x_final = x_crawler\<lparr>visited := {''http://x.test'', ''http://x.test/a''},
                       results := x_result\<rparr>"

text \<open>The out-links of all pages of a result dictionary.\<close>

definition all_out_links :: "results_dict \<Rightarrow> string list" where
  "all_out_links res =
     concat (map (\<lambda>(k, en). case en of Skipped r \<Rightarrow> [] | Page p \<Rightarrow> out_links p) res)"

text \<open>
  The crawler \<^verbatim>\<open>Crawler("http://a.test", max_pages=10, max_depth=1,
  allowed_external=True)\<close> on the two sites.
\<close>

definition a_crawler :: crawler where
  "a_crawler =
     \<lparr> start_url = ''http://a.test'', max_pages = 10, max_depth = 1, delay = 1,
       user_agent = default_user_agent, allowed_external = True,
       robots = \<lparr> rp = Some (\<lambda>ua url. Inr True), rc_user_agent = default_user_agent \<rparr>,
       visited = {}, results = [] \<rparr>"

text \<open>
  Two more single pages of \<^verbatim>\<open>x.test\<close>: one with a mail link, a script link and the link
  \<^verbatim>\<open>/a\<close>; one with a link to an ftp URL on the same host.
\<close>

definition mail_site :: world where
  "mail_site = one_page [''mailto:me@x.test'', ''javascript:void(0)'', ''/a'']"

definition ftp_site :: world where
  "ftp_site = one_page [''ftp://x.test/f'']"

definition ftp_result :: results_dict where
  "ftp_result =
     [(''http://x.test'',
       Page \<lparr> url = ''http://x.test'', status = 200, headers = [], depth = 0, forms = [],
              out_links = [''ftp://x.test/f''], error = None \<rparr>),
      (''ftp://x.test/f'',
       Page \<lparr> url = ''ftp://x.test/f'', status = 0, headers = [], depth = 1, forms = [],
              out_links = [], error = Some ''__fetch_error__:InvalidSchema()'' \<rparr>)]"

text \<open>
  The result of the crawl of the two sites, the crawler object after its first pass,
  and the result of the crawl of the marked page.
\<close>

definition a_result :: results_dict where
  "a_result =
     [(''http://a.test'',
       Page \<lparr> url = ''http://a.test'', status = 200, headers = [], depth = 0, forms = [],
              out_links = [''http://b.test/secret''], error = None \<rparr>),
      (''http://b.test/secret'',
       Page \<lparr> url = ''http://b.test/secret'', status = 200, headers = [], depth = 1,
              forms = [], out_links = [], error = None \<rparr>)]"

definition a_mid :: crawler where
  "a_mid = a_crawler\<lparr>visited := {''http://a.test'', ''http://b.test/secret''},
                     results := [hd a_result]\<rparr>"

definition marker_result :: results_dict where
  "marker_result =
     [(''http://x.test'',
       Page \<lparr> url = ''http://x.test'', status = 200, headers = [], depth = 0, forms = [],
              out_links = [],
              error = Some ''__fetch_error__ is a word of this page'' \<rparr>)]"

text \<open>
  The value under the key \<^verbatim>\<open>depth\<close> of a stored record, \<open>None\<close> when the record has no
  such key: the record \<^verbatim>\<open>{"skipped": "blocked_by_robots"}\<close> has the key \<^verbatim>\<open>skipped\<close> only.
\<close>

definition entry_depth :: "entry \<Rightarrow> int option" where
  "entry_depth en = (case en of Skipped r \<Rightarrow> None | Page p \<Rightarrow> Some (depth p))"

subsection \<open>The standard library's robots.txt reader\<close>

text \<open>
  \<^verbatim>\<open>RobotFileParser.read()\<close> of CPython 3.11, with the answers \<^verbatim>\<open>can_fetch\<close> gives
  afterwards. \<^verbatim>\<open>urllib.request.urlopen\<close> raises an exception that is not an \<^verbatim>\<open>HTTPError\<close>
  (no connection, for one), or it raises \<^verbatim>\<open>HTTPError\<close> with a status code, or it opens
  the file. \<^verbatim>\<open>read()\<close> lets the first through and catches the second: for the codes 401
  and 403 it sets \<^verbatim>\<open>disallow_all\<close>, for the other codes from 400 to 499 \<^verbatim>\<open>allow_all\<close>,
  and for any other code it sets nothing, so that \<^verbatim>\<open>last_checked\<close> stays 0 and
  \<^verbatim>\<open>can_fetch\<close> answers \<^verbatim>\<open>False\<close> to every query. \<open>parse\<close> stands for decoding and
  parsing an opened file. It is not code of \<^verbatim>\<open>crawler.py\<close>; it instantiates the
  \<open>robots_read\<close> of a \<open>world\<close>.
\<close>

datatype urlopen_result = Raised error | HTTPError int | Opened string

definition RobotFileParser_read ::
  "(string \<Rightarrow> urlopen_result) \<Rightarrow> (string \<Rightarrow> error + robot_rules)
     \<Rightarrow> string \<Rightarrow> error + robot_rules" where
  "RobotFileParser_read urlopen parse u =
     (case urlopen u of
        Raised e \<Rightarrow> Inl e
      | HTTPError code \<Rightarrow>
          if code = 401 \<or> code = 403 then Inr (\<lambda>ua url. Inr False)
          else if 400 \<le> code \<and> code < 500 then Inr (\<lambda>ua url. Inr True)
          else Inr (\<lambda>ua url. Inr False)
      | Opened body \<Rightarrow> parse body)"

text \<open>
  The site \<^verbatim>\<open>x.test\<close> of the scenario when the request for its robots.txt is answered
  with the HTTP status \<open>code\<close>.
\<close>

definition robots_status :: "int \<Rightarrow> world" where
  "robots_status code =
     x_test\<lparr>robots_read :=
       RobotFileParser_read (\<lambda>u. HTTPError code) (\<lambda>body. Inr (\<lambda>ua url. Inr True))\<rparr>"

text \<open>
  A single page of \<^verbatim>\<open>x.test\<close> that links to \<^verbatim>\<open>/admin\<close>, with a robots.txt that disallows
  \<^verbatim>\<open>/admin\<close>; the crawler built for it, and the result of its crawl.
\<close>

definition admin_rules :: robot_rules where
  "admin_rules ua u = Inr (\<not> startswith u ''http://x.test/admin'')"

definition guarded_site :: world where
  "guarded_site = (one_page [''/admin''])\<lparr>robots_read := (\<lambda>u. Inr admin_rules)\<rparr>"

definition guarded_crawler :: crawler where
  "guarded_crawler =
     x_crawler\<lparr>robots := \<lparr> rp = Some admin_rules, rc_user_agent = default_user_agent \<rparr>\<rparr>"

definition guarded_result :: results_dict where
  "guarded_result =
     [(''http://x.test'',
       Page \<lparr> url = ''http://x.test'', status = 200, headers = [], depth = 0, forms = [],
              out_links = [''http://x.test/admin''], error = None \<rparr>),
      (''http://x.test/admin'', Skipped ''blocked_by_robots'')]"

text \<open>
  A single page at a start URL with a fragment, \<^verbatim>\<open>http://x.test/#top\<close>, whose only
  anchor is \<^verbatim>\<open>#sec\<close>; the result of its crawl.
\<close>

definition frag_site :: world where
  "frag_site = site_world
     (\<lambda>u. if u = ''http://x.test/#top''
          then Inr \<lparr> status_code = 200, resp_text = ''index'', resp_headers = [] \<rparr>
          else if startswith u ''http://'' \<or> startswith u ''https://''
          then Inr \<lparr> status_code = 404, resp_text = ''Not Found'', resp_headers = [] \<rparr>
          else Inl ''InvalidSchema()'')
     (\<lambda>html. if html = ''index'' then [''#sec''] else [])
     no_robots"

definition frag_result :: results_dict where
  "frag_result =
     [(''http://x.test/#top'',
       Page \<lparr> url = ''http://x.test/#top'', status = 200, headers = [], depth = 0,
              forms = [], out_links = [''http://x.test/#top''], error = None \<rparr>)]"

text \<open>A URL without a fragment: no \<^verbatim>\<open>#\<close> occurs in it.\<close>

definition hash_free :: "string \<Rightarrow> bool" where
  "hash_free s = (CHR ''#'' \<notin> set s)"

subsection \<open>Three properties of the libraries\<close>

text \<open>
  Three properties of \<^verbatim>\<open>requests\<close> and \<^verbatim>\<open>urllib.parse\<close>, as predicates on a \<open>world\<close>.

  \<open>fetches_http_only\<close>: \<^verbatim>\<open>session.get\<close> returns a response only for a URL whose scheme is
  \<^verbatim>\<open>http\<close> or \<^verbatim>\<open>https\<close>; a session has transport adapters for these two schemes only and
  raises \<^verbatim>\<open>InvalidSchema\<close> or \<^verbatim>\<open>MissingSchema\<close> otherwise.

  \<open>join_has_scheme\<close>: \<^verbatim>\<open>urljoin\<close> onto a base whose scheme is \<^verbatim>\<open>http\<close> or \<^verbatim>\<open>https\<close> gives a
  URL in which \<^verbatim>\<open>urlparse\<close> finds a scheme: the link's own scheme, or the base's.

  \<open>join_fragment_free\<close>: \<^verbatim>\<open>urljoin(base, "")\<close> is \<^verbatim>\<open>base\<close>, and \<^verbatim>\<open>urljoin\<close> of a link that is
  not empty and has no \<^verbatim>\<open>#\<close> gives a URL without \<^verbatim>\<open>#\<close>: the fragment of the result is the
  link's.
\<close>

definition fetches_http_only :: "world \<Rightarrow> bool" where
  "fetches_http_only w =
     (\<forall>u resp b. session_get w u = Inr resp \<longrightarrow> urlparse w u = Inr b
        \<longrightarrow> scheme b = ''http'' \<or> scheme b = ''https'')"

definition join_has_scheme :: "world \<Rightarrow> bool" where
  "join_has_scheme w =
     (\<forall>base u n b r. urljoin w base u = Inr n \<longrightarrow> urlparse w base = Inr b
        \<longrightarrow> scheme b = ''http'' \<or> scheme b = ''https''
        \<longrightarrow> urlparse w n = Inr r \<longrightarrow> scheme r \<noteq> [])"

definition join_fragment_free :: "world \<Rightarrow> bool" where
  "join_fragment_free w =
     ((\<forall>base n. urljoin w base [] = Inr n \<longrightarrow> n = base)
      \<and> (\<forall>base u n. urljoin w base u = Inr n \<longrightarrow> u \<noteq> [] \<longrightarrow> hash_free u
            \<longrightarrow> hash_free n))"

section \<open>Properties of the loop\<close>

lemma link_ok_mono: "link_ok w c u links n \<Longrightarrow> link_ok w c u (l # links) n"
  by (auto simp: link_ok_def)

lemma link_ok_frame [simp]:
  "link_ok w (c\<lparr>visited := V\<rparr>) u links n = link_ok w c u links n"
  "link_ok w (c\<lparr>results := R\<rparr>) u links n = link_ok w c u links n"
  by (simp_all add: link_ok_def)

lemma link_loop_crawler:
  "link_loop w u d links (nz, q, c) = (nz', q', c') \<Longrightarrow> c' = c\<lparr>visited := visited c'\<rparr>"
proof (induction links arbitrary: nz q c)
  case Nil
  then show ?case by simp
next
  case (Cons l links)
  show ?case
  proof (cases "normalize_url w u l")
    case (Inl e)
    with Cons show ?thesis by simp
  next
    case (Inr n)
    with Cons.prems Cons.IH[of _ _ c] Cons.IH[of _ _ "c\<lparr>visited := insert n (visited c)\<rparr>"]
    show ?thesis by (auto split: if_splits)
  qed
qed

lemma link_loop_normalized:
  "link_loop w u d links (nz, q, c) = (nz', q', c')
   \<Longrightarrow> \<exists>added. nz' = nz @ added \<and> (\<forall>n \<in> set added. link_ok w c u links n)"
proof (induction links arbitrary: nz q c)
  case Nil
  then show ?case by simp
next
  case (Cons l links)
  show ?case
  proof (cases "normalize_url w u l")
    case (Inl e)
    with Cons.prems have "link_loop w u d links (nz, q, c) = (nz', q', c')" by simp
    from Cons.IH[OF this] show ?thesis by (auto intro: link_ok_mono)
  next
    case (Inr n)
    show ?thesis
    proof (cases "startswith n ''mailto:'' \<or> startswith n ''javascript:''
                  \<or> (\<not> allowed_external c \<and> \<not> same_domain w (start_url c) n)")
      case True
      with Inr Cons.prems have "link_loop w u d links (nz, q, c) = (nz', q', c')"
        by (auto split: if_splits)
      from Cons.IH[OF this] show ?thesis by (auto intro: link_ok_mono)
    next
      case False
      then have ok: "link_ok w c u (l # links) n" using Inr by (auto simp: link_ok_def)
      from False Inr Cons.prems obtain q1 c1 where
        step: "link_loop w u d links (nz @ [n], q1, c1) = (nz', q', c')"
        and c1: "c1 = c \<or> c1 = c\<lparr>visited := insert n (visited c)\<rparr>"
        by (auto split: if_splits)
      from Cons.IH[OF step] obtain added where
        a: "nz' = (nz @ [n]) @ added" "\<forall>m \<in> set added. link_ok w c1 u links m" by blast
      from a(2) c1 have "\<forall>m \<in> set added. link_ok w c u links m" by auto
      with a(1) ok have "nz' = nz @ (n # added) \<and> (\<forall>m \<in> set (n # added). link_ok w c u (l # links) m)"
        by (auto intro: link_ok_mono)
      then show ?thesis by blast
    qed
  qed
qed

lemma link_loop_pushed:
  "link_loop w u d links (nz, q, c) = (nz', q', c')
   \<Longrightarrow> \<exists>pushed. q' = q @ map (\<lambda>n. (n, d + 1)) pushed \<and> distinct pushed
         \<and> set pushed \<inter> visited c = {} \<and> visited c' = visited c \<union> set pushed
         \<and> (pushed \<noteq> [] \<longrightarrow> d + 1 \<le> max_depth c)
         \<and> (\<forall>n \<in> set pushed. link_ok w c u links n)"
proof (induction links arbitrary: nz q c)
  case Nil
  then show ?case by simp
next
  case (Cons l links)
  show ?case
  proof (cases "normalize_url w u l")
    case (Inl e)
    with Cons.prems have "link_loop w u d links (nz, q, c) = (nz', q', c')" by simp
    from Cons.IH[OF this] show ?thesis by (blast intro: link_ok_mono)
  next
    case (Inr n)
    show ?thesis
    proof (cases "\<not> (startswith n ''mailto:'' \<or> startswith n ''javascript:''
                  \<or> (\<not> allowed_external c \<and> \<not> same_domain w (start_url c) n))
                  \<and> n \<notin> visited c \<and> d + 1 \<le> max_depth c
                  \<and> int (length (results c)) + int (length q) < max_pages c")
      case True
      with Inr Cons.prems have
        step: "link_loop w u d links (nz @ [n], q @ [(n, d + 1)], c\<lparr>visited := insert n (visited c)\<rparr>)
               = (nz', q', c')" by (auto split: if_splits)
      from Cons.IH[OF step] obtain pushed where
        p: "q' = (q @ [(n, d + 1)]) @ map (\<lambda>n. (n, d + 1)) pushed" "distinct pushed"
           "set pushed \<inter> insert n (visited c) = {}" "visited c' = insert n (visited c) \<union> set pushed"
           "\<forall>m \<in> set pushed. link_ok w c u links m"
        by auto
      from True Inr have ok: "link_ok w c u (l # links) n" by (auto simp: link_ok_def)
      from p(5) ok have oks: "\<forall>m \<in> set (n # pushed). link_ok w c u (l # links) m"
        by (auto intro: link_ok_mono)
      from p(1-4) True have "q' = q @ map (\<lambda>n. (n, d + 1)) (n # pushed) \<and> distinct (n # pushed)
         \<and> set (n # pushed) \<inter> visited c = {} \<and> visited c' = visited c \<union> set (n # pushed)
         \<and> (n # pushed \<noteq> [] \<longrightarrow> d + 1 \<le> max_depth c)"
        by auto
      with oks show ?thesis by blast
    next
      case False
      with Inr Cons.prems obtain nz1 where "link_loop w u d links (nz1, q, c) = (nz', q', c')"
        by (auto split: if_splits)
      from Cons.IH[OF this] show ?thesis by (blast intro: link_ok_mono)
    qed
  qed
qed

lemma entry_inv_frame [simp]:
  "entry_inv w (c\<lparr>visited := V\<rparr>) k en = entry_inv w c k en"
  "entry_inv w (c\<lparr>results := R\<rparr>) k en = entry_inv w c k en"
  by (simp_all add: entry_inv_def split: entry.splits prod.splits)

lemma length_dict_set:
  "length (dict_set d k v) = (if k \<in> fst ` set d then length d else Suc (length d))"
  by (induction d) fastforce+

lemma keys_dict_set:
  "map fst (dict_set d k v) = (if k \<in> fst ` set d then map fst d else map fst d @ [k])"
  by (induction d) fastforce+

lemma dom_dict_set: "fst ` set (dict_set d k v) = insert k (fst ` set d)"
  by (induction d k v rule: dict_set.induct) (simp_all add: insert_commute)

lemma set_dict_set: "(k', v') \<in> set (dict_set d k v) \<Longrightarrow> (k', v') \<in> set d \<or> (k' = k \<and> v' = v)"
  by (induction d) (auto split: if_splits)

lemma crawl_body_crawler:
  "crawl_body w q c = (e, q', c') \<Longrightarrow> c' = c\<lparr>visited := visited c', results := results c'\<rparr>"
  by (auto simp: crawl_body_def Let_def split: list.splits prod.splits if_splits sum.splits
           dest!: link_loop_crawler)

lemma crawl_body_pushed:
  "crawl_body w ((u, d) # q1) c = (e, q', c')
   \<Longrightarrow> \<exists>pushed. q' = q1 @ map (\<lambda>n. (n, d + 1)) pushed \<and> distinct pushed
         \<and> set pushed \<inter> visited c = {} \<and> visited c' = visited c \<union> set pushed
         \<and> (pushed \<noteq> [] \<longrightarrow> d + 1 \<le> max_depth c)
         \<and> (\<forall>n \<in> set pushed. \<not> startswith n ''mailto:'' \<and> \<not> startswith n ''javascript:''
               \<and> (allowed_external c \<or> same_domain w (start_url c) n))"
proof -
  assume b: "crawl_body w ((u, d) # q1) c = (e, q', c')"
  have nil: "?thesis" if "q' = q1" "visited c' = visited c"
    using that by (intro exI[of _ "[]"]) simp
  show ?thesis
  proof (cases "d \<le> max_depth c \<and> can_fetch (robots c) u \<and> fst (fetch w u) = 200
                \<and> \<not> startswith (fst (snd (fetch w u))) ''__fetch_error__''")
    case False
    with b have "q' = q1 \<and> visited c' = visited c"
      by (auto simp: crawl_body_def Let_def split: prod.splits if_splits)
    with nil show ?thesis by blast
  next
    case True
    obtain links fs where x: "extract_links_and_forms w u (fst (snd (fetch w u))) = (links, fs)"
      by (cases "extract_links_and_forms w u (fst (snd (fetch w u)))") auto
    obtain nz q2 c2 where l: "link_loop w u d links ([], q1, c) = (nz, q2, c2)"
      by (cases "link_loop w u d links ([], q1, c)") auto
    from b True x l have "q' = q2 \<and> visited c' = visited c2"
      by (auto simp: crawl_body_def Let_def split: prod.splits if_splits sum.splits)
    with link_loop_pushed[OF l] show ?thesis by (auto simp: link_ok_def)
  qed
qed

lemma crawl_body_results:
  "crawl_body w ((u, d) # q1) c = (e, q', c')
   \<Longrightarrow> (results c' = results c \<and> (e = None \<longrightarrow> max_depth c < d))
       \<or> (\<exists>en. results c' = dict_set (results c) u en \<and> entry_inv w c u en)"
proof -
  assume b: "crawl_body w ((u, d) # q1) c = (e, q', c')"
  show ?thesis
  proof (cases "d > max_depth c")
    case True
    with b show ?thesis by (simp add: crawl_body_def)
  next
    case deep: False
    show ?thesis
    proof (cases "can_fetch (robots c) u")
      case False
      with deep b show ?thesis by (auto simp: crawl_body_def entry_inv_def)
    next
      case allowed: True
      obtain st body hs where f: "fetch w u = (st, body, hs)" by (cases "fetch w u") auto
      show ?thesis
      proof (cases "st = 200 \<and> \<not> startswith body ''__fetch_error__''")
        case False
        with deep allowed f b show ?thesis
          by (auto simp: crawl_body_def entry_inv_def)
      next
        case True
        obtain links fs where x: "extract_links_and_forms w u body = (links, fs)"
          by (cases "extract_links_and_forms w u body") auto
        obtain nz q2 c2 where l: "link_loop w u d links ([], q1, c) = (nz, q2, c2)"
          by (cases "link_loop w u d links ([], q1, c)") auto
        from link_loop_crawler[OF l] have c2: "results c2 = results c"
          by (metis crawler.select_convs(9) crawler.surjective crawler.update_convs(8))
        from link_loop_normalized[OF l] have nz: "\<forall>n \<in> set nz. link_ok w c u links n" by auto
        show ?thesis
        proof (cases "resolve_forms w u fs")
          case (Inl err)
          with deep allowed f True x l b c2 show ?thesis by (auto simp: crawl_body_def)
        next
          case (Inr resolved)
          with deep allowed f True x l b c2 nz show ?thesis
            by (auto simp: crawl_body_def entry_inv_def)
        qed
      qed
    qed
  qed
qed

lemma crawl_start_eq:
  "crawl_start c0 = (q, c) \<longleftrightarrow>
     q = [(start_url c0, 0)] \<and> c = c0\<lparr>visited := insert (start_url c0) (visited c0)\<rparr>"
  by (auto simp: crawl_start_def)

lemma reach_frame:
  "reach w c0 enq deq (e, q, c) \<Longrightarrow> c = c0\<lparr>visited := visited c, results := results c\<rparr>"
proof (induction enq deq "(e, q, c)" arbitrary: e q c rule: reach.induct)
  case (reach_start q c)
  then show ?case by (simp add: crawl_start_eq)
next
  case (reach_body enq deq q c e q' c')
  from reach_body(2) have "c = c0\<lparr>visited := visited c, results := results c\<rparr>" .
  moreover from crawl_body_crawler[OF reach_body(4)]
  have "c' = c\<lparr>visited := visited c', results := results c'\<rparr>" .
  ultimately have "c' = c0\<lparr>visited := visited c, results := results c\<rparr>
                        \<lparr>visited := visited c', results := results c'\<rparr>" by simp
  then show ?case by simp
qed

lemma frame_config:
  assumes "c = c0\<lparr>visited := V, results := R\<rparr>"
  shows "start_url c = start_url c0" "max_pages c = max_pages c0" "max_depth c = max_depth c0"
    "delay c = delay c0" "user_agent c = user_agent c0"
    "allowed_external c = allowed_external c0" "robots c = robots c0"
    "entry_inv w c k en = entry_inv w c0 k en" "link_ok w c u links n = link_ok w c0 u links n"
  using assms by simp_all

lemma loop_cond_Cons: "loop_cond q c \<Longrightarrow> \<exists>u d q1. q = (u, d) # q1"
  by (cases q) (auto simp: loop_cond_def)

lemma reach_queue:
  assumes "reach w c0 enq deq (e, q, c)" "visited c0 = {}"
  shows "enq = deq @ map fst q \<and> distinct enq \<and> visited c = set enq"
  using assms
proof (induction enq deq "(e, q, c)" arbitrary: e q c rule: reach.induct)
  case (reach_start q c)
  then show ?case by (simp add: crawl_start_eq)
next
  case (reach_body enq deq q c e q' c')
  from reach_body(2)[OF reach_body(5)]
  have ih: "enq = deq @ map fst q" "distinct enq" "visited c = set enq" by blast+
  from loop_cond_Cons[OF reach_body(3)] obtain u d q1 where q: "q = (u, d) # q1" by blast
  from crawl_body_pushed[OF reach_body(4)[unfolded q]] obtain pushed where
    p: "q' = q1 @ map (\<lambda>n. (n, d + 1)) pushed" "distinct pushed"
       "set pushed \<inter> visited c = {}" "visited c' = visited c \<union> set pushed" by blast
  have dr: "map fst (drop (length q - 1) q') = pushed"
    using p(1) q by (simp add: comp_def)
  have e1: "enq @ pushed = (deq @ [u]) @ map fst q'"
    using ih(1) p(1) q by (simp add: comp_def)
  have d1: "distinct (enq @ pushed)" using ih(2,3) p(2,3) by auto
  have v1: "visited c' = set (enq @ pushed)" using ih(3) p(4) by auto
  show ?case unfolding dr using e1 d1 v1 q by simp
qed

lemma reach_keys:
  assumes "reach w c0 enq deq (e, q, c)" "results c0 = []"
  shows "set (map fst (results c)) \<subseteq> set deq \<and> distinct (map fst (results c))"
  using assms
proof (induction enq deq "(e, q, c)" arbitrary: e q c rule: reach.induct)
  case (reach_start q c)
  then show ?case by (simp add: crawl_start_eq)
next
  case (reach_body enq deq q c e q' c')
  from reach_body(2)[OF reach_body(5)]
  have ih: "set (map fst (results c)) \<subseteq> set deq" "distinct (map fst (results c))" by auto
  from loop_cond_Cons[OF reach_body(3)] obtain u d q1 where q: "q = (u, d) # q1" by blast
  from crawl_body_results[OF reach_body(4)[unfolded q]]
  have "results c' = results c \<or> (\<exists>en. results c' = dict_set (results c) u en)" by blast
  then have "set (map fst (results c')) \<subseteq> insert u (set (map fst (results c)))
             \<and> distinct (map fst (results c'))"
  proof
    assume "results c' = results c"
    then show ?thesis using ih(2) by auto
  next
    assume "\<exists>en. results c' = dict_set (results c) u en"
    then obtain en where "results c' = dict_set (results c) u en" ..
    then show ?thesis using ih(2) by (simp add: dom_dict_set keys_dict_set) blast
  qed
  then show ?case using ih(1) q by simp blast
qed

lemma reach_entries:
  assumes "reach w c0 enq deq (e, q, c)" "results c0 = []"
  shows "\<forall>(k, en) \<in> set (results c). entry_inv w c0 k en"
  using assms
proof (induction enq deq "(e, q, c)" arbitrary: e q c rule: reach.induct)
  case (reach_start q c)
  then show ?case by (simp add: crawl_start_eq)
next
  case (reach_body enq deq q c e q' c')
  from reach_body(2)[OF reach_body(5)]
  have ih: "\<forall>(k, en) \<in> set (results c). entry_inv w c0 k en" .
  from loop_cond_Cons[OF reach_body(3)] obtain u d q1 where q: "q = (u, d) # q1" by blast
  have inv: "entry_inv w c k en = entry_inv w c0 k en" for k en
    using frame_config(8)[OF reach_frame[OF reach_body(1)]] .
  from crawl_body_results[OF reach_body(4)[unfolded q]]
  have "results c' = results c
        \<or> (\<exists>en. results c' = dict_set (results c) u en \<and> entry_inv w c0 u en)"
    unfolding inv by blast
  then show ?case using ih by (fastforce dest: set_dict_set)
qed

lemma reach_size:
  assumes "reach w c0 enq deq (e, q, c)" "results c0 = []" "0 \<le> max_pages c0"
  shows "int (length (results c)) \<le> max_pages c0"
  using assms
proof (induction enq deq "(e, q, c)" arbitrary: e q c rule: reach.induct)
  case (reach_start q c)
  then show ?case by (simp add: crawl_start_eq)
next
  case (reach_body enq deq q c e q' c')
  from loop_cond_Cons[OF reach_body(3)] obtain u d q1 where q: "q = (u, d) # q1" by blast
  have mp: "max_pages c = max_pages c0"
    using frame_config(2)[OF reach_frame[OF reach_body(1)]] .
  from reach_body(3) mp have lt: "int (length (results c)) < max_pages c0"
    by (simp add: loop_cond_def)
  from crawl_body_results[OF reach_body(4)[unfolded q]]
  have "results c' = results c \<or> (\<exists>en. results c' = dict_set (results c) u en)" by blast
  then show ?case using lt by (auto simp: length_dict_set split: if_splits)
qed

lemma crawl_loop_reach_aux:
  assumes "crawl_loop w q c = Some r"
  shows "\<forall>enq deq. reach w c0 enq deq (None, q, c) \<longrightarrow>
           (\<exists>enq' deq' q'. reach w c0 enq' deq' (fst r, q', snd r)
              \<and> (fst r = None \<longrightarrow> \<not> loop_cond q' (snd r)))"
proof (rule crawl_loop.raw_induct[where P = "\<lambda>w q c r.
         \<forall>enq deq. reach w c0 enq deq (None, q, c) \<longrightarrow>
           (\<exists>enq' deq' q'. reach w c0 enq' deq' (fst r, q', snd r)
              \<and> (fst r = None \<longrightarrow> \<not> loop_cond q' (snd r)))", OF _ assms])
  fix loop :: "world \<Rightarrow> frontier \<Rightarrow> crawler \<Rightarrow> (error option \<times> crawler) option"
  fix w q c r
  assume IH: "\<And>w q c r. loop w q c = Some r \<Longrightarrow>
         \<forall>enq deq. reach w c0 enq deq (None, q, c) \<longrightarrow>
           (\<exists>enq' deq' q'. reach w c0 enq' deq' (fst r, q', snd r)
              \<and> (fst r = None \<longrightarrow> \<not> loop_cond q' (snd r)))"
  assume eq: "(if loop_cond q c
      then case crawl_body w q c of (None, q', c') \<Rightarrow> loop w q' c'
           | (Some e, q', c') \<Rightarrow> Some (Some e, c')
      else Some (None, c)) = Some r"
  show "\<forall>enq deq. reach w c0 enq deq (None, q, c) \<longrightarrow>
           (\<exists>enq' deq' q'. reach w c0 enq' deq' (fst r, q', snd r)
              \<and> (fst r = None \<longrightarrow> \<not> loop_cond q' (snd r)))"
  proof (intro allI impI)
    fix enq deq
    assume re: "reach w c0 enq deq (None, q, c)"
    show "\<exists>enq' deq' q'. reach w c0 enq' deq' (fst r, q', snd r)
              \<and> (fst r = None \<longrightarrow> \<not> loop_cond q' (snd r))"
    proof (cases "loop_cond q c")
      case False
      with eq have "r = (None, c)" by simp
      with False re show ?thesis by auto
    next
      case True
      obtain e q' c' where b: "crawl_body w q c = (e, q', c')"
        by (cases "crawl_body w q c") auto
      from reach_body[OF re True b]
      have r': "reach w c0 (enq @ map fst (drop (length q - 1) q')) (deq @ [fst (hd q)]) (e, q', c')" .
      show ?thesis
      proof (cases e)
        case None
        with True b eq have "loop w q' c' = Some r" by simp
        from IH[OF this] r'[unfolded None] show ?thesis by blast
      next
        case (Some err)
        with True b eq have "r = (Some err, c')" by simp
        with r' Some show ?thesis by auto
      qed
    qed
  qed
qed

lemma crawl_loop_reach:
  assumes "crawl_loop w q c = Some (e, c')" "reach w c0 enq deq (None, q, c)"
  shows "\<exists>enq' deq' q'. reach w c0 enq' deq' (e, q', c') \<and> (e = None \<longrightarrow> \<not> loop_cond q' c')"
  using crawl_loop_reach_aux[OF assms(1), of c0] assms(2) by auto

lemma crawl_reach:
  assumes "crawl w c0 = Some (e, c')"
  shows "\<exists>enq' deq' q'. reach w c0 enq' deq' (e, q', c') \<and> (e = None \<longrightarrow> \<not> loop_cond q' c')"
proof -
  obtain q c where s: "crawl_start c0 = (q, c)" by (cases "crawl_start c0") auto
  with assms have "crawl_loop w q c = Some (e, c')" by (simp add: crawl_def)
  from crawl_loop_reach[OF this reach_start[OF s]] show ?thesis .
qed

lemma reach_head_new:
  assumes "reach w c0 enq deq (None, (u, d) # q1, c)" "visited c0 = {}" "results c0 = []"
  shows "u \<notin> fst ` set (results c)"
proof -
  from reach_queue[OF assms(1,2)] have "u \<notin> set deq" by auto
  moreover from reach_keys[OF assms(1,3)] have "fst ` set (results c) \<subseteq> set deq" by simp
  ultimately show ?thesis by blast
qed

lemma crawl_loop_terminates:
  assumes "reach w c0 enq deq (None, q, c)" "visited c0 = {}" "results c0 = []"
  shows "\<exists>r. crawl_loop w q c = Some r"
proof -
  have "wf (measures [\<lambda>(q, c). nat (max_pages c - int (length (results c))),
                      \<lambda>(q, c :: crawler). length q])" by simp
  then show ?thesis using assms(1)
  proof (induction "(q, c)" arbitrary: q c enq deq rule: wf_induct_rule)
    case less
    show ?case
    proof (cases "loop_cond q c")
      case False
      then show ?thesis by (subst crawl_loop.simps) simp
    next
      case True
      then obtain u d q1 where q: "q = (u, d) # q1" using loop_cond_Cons by blast
      obtain e q' c' where b: "crawl_body w q c = (e, q', c')"
        by (cases "crawl_body w q c") auto
      show ?thesis
      proof (cases e)
        case (Some err)
        with True b show ?thesis by (subst crawl_loop.simps) simp
      next
        case None
        from reach_body[OF less(2) True b] None obtain enq' deq' where
          r': "reach w c0 enq' deq' (None, q', c')" by blast
        from crawl_body_crawler[OF b] have mp: "max_pages c' = max_pages c" 
          by (metis crawler.select_convs(2) crawler.surjective crawler.update_convs(8,9))
        have "((q', c'), (q, c)) \<in> measures [\<lambda>(q, c). nat (max_pages c - int (length (results c))),
                      \<lambda>(q, c :: crawler). length q]"
        proof (cases "d > max_depth c")
          case True
          with b q have "q' = q1" "c' = c" by (simp_all add: crawl_body_def)
          with q show ?thesis by simp
        next
          case False
          with crawl_body_results[OF b[unfolded q]] None obtain en where
            "results c' = dict_set (results c) u en" by auto
          moreover from reach_head_new[OF less(2)[unfolded q] assms(2,3)]
          have "u \<notin> fst ` set (results c)" .
          ultimately have "length (results c') = Suc (length (results c))"
            by (simp add: length_dict_set)
          with True mp show ?thesis by (simp add: loop_cond_def)
        qed
        from less(1)[OF this r'] obtain r where "crawl_loop w q' c' = Some r" ..
        with True b None show ?thesis by (subst crawl_loop.simps) simp
      qed
    qed
  qed
qed

subsection \<open>From the constructor to the returned dictionary\<close>

lemma Crawler_init_fresh:
  "Crawler_init w start mp md dl ua ext = Inr c0 \<Longrightarrow>
     start_url c0 = rstrip_slash start \<and> max_pages c0 = mp \<and> max_depth c0 = md
     \<and> delay c0 = dl \<and> user_agent c0 = ua \<and> allowed_external c0 = ext
     \<and> visited c0 = {} \<and> results c0 = []
     \<and> RobotsChecker_init w (rstrip_slash start) ua = Inr (robots c0)"
  by (auto simp: Crawler_init_def split: sum.splits)

lemma main_crawl_reach:
  assumes "main_crawl w start mp md dl ua ext = Some (Inr res)"
  shows "\<exists>c0 enq deq q c. Crawler_init w start mp md dl ua ext = Inr c0
           \<and> reach w c0 enq deq (None, q, c) \<and> \<not> loop_cond q c \<and> results c = res"
proof -
  from assms obtain c0 c where
    i: "Crawler_init w start mp md dl ua ext = Inr c0" and c: "crawl w c0 = Some (None, c)"
    and r: "results c = res"
    by (auto simp: main_crawl_def split: sum.splits option.splits prod.splits)
  from crawl_reach[OF c] i r show ?thesis by blast
qed

text \<open>A call of \<^verbatim>\<open>crawl\<close> on a new crawler ends: it returns or it raises.\<close>

lemma main_crawl_total: "\<exists>r. main_crawl w start mp md dl ua ext = Some r"
proof (cases "Crawler_init w start mp md dl ua ext")
  case (Inl e)
  then show ?thesis by (simp add: main_crawl_def)
next
  case (Inr c0)
  obtain q c where s: "crawl_start c0 = (q, c)" by (cases "crawl_start c0") auto
  from Crawler_init_fresh[OF Inr] have f: "visited c0 = {}" "results c0 = []" by auto
  from crawl_loop_terminates[OF reach_start[OF s] f] obtain r where "crawl_loop w q c = Some r" ..
  with s have "crawl w c0 = Some r" by (simp add: crawl_def)
  with Inr show ?thesis
    by (cases r) (auto simp: main_crawl_def split: option.splits)
qed

lemma store_cases:
  assumes "Crawler_init w start mp md dl ua ext = Inr c0"
    and "(reach w c0 enq deq (e, q, c) \<and> results c = res)
         \<or> main_crawl w start mp md dl ua ext = Some (Inr res)"
  shows "\<exists>enq deq e q c. reach w c0 enq deq (e, q, c) \<and> results c = res"
  using assms(2)
proof
  assume "reach w c0 enq deq (e, q, c) \<and> results c = res"
  then show ?thesis by blast
next
  assume "main_crawl w start mp md dl ua ext = Some (Inr res)"
  from main_crawl_reach[OF this] obtain c1 enq1 deq1 q1 c2 where
    "Crawler_init w start mp md dl ua ext = Inr c1" "reach w c1 enq1 deq1 (None, q1, c2)"
    "results c2 = res" by blast
  with assms(1) have "reach w c0 enq1 deq1 (None, q1, c2) \<and> results c2 = res" by simp
  then show ?thesis by blast
qed

lemma reach_enq_filtered:
  assumes "reach w c0 enq deq (e, q, c)" "n \<in> set enq" "n \<noteq> start_url c0"
  shows "\<not> startswith n ''mailto:'' \<and> \<not> startswith n ''javascript:''
         \<and> (allowed_external c0 \<or> same_domain w (start_url c0) n)"
  using assms
proof (induction enq deq "(e, q, c)" arbitrary: e q c rule: reach.induct)
  case (reach_start q c)
  then show ?case by (simp add: crawl_start_eq)
next
  case (reach_body enq deq q c e q' c')
  from loop_cond_Cons[OF reach_body(3)] obtain u d q1 where q: "q = (u, d) # q1" by blast
  from crawl_body_pushed[OF reach_body(4)[unfolded q]] obtain pushed where
    p: "q' = q1 @ map (\<lambda>n. (n, d + 1)) pushed"
       "\<forall>n \<in> set pushed. \<not> startswith n ''mailto:'' \<and> \<not> startswith n ''javascript:''
               \<and> (allowed_external c \<or> same_domain w (start_url c) n)" by blast
  have dr: "map fst (drop (length q - 1) q') = pushed"
    using p(1) q by (simp add: comp_def)
  note fc = frame_config[OF reach_frame[OF reach_body(1)]]
  have "n \<in> set (enq @ pushed)" using reach_body(5) unfolding dr .
  then have "n \<in> set enq \<or> n \<in> set pushed" by simp
  then show ?case
  proof
    assume "n \<in> set enq"
    from reach_body(2)[OF this reach_body(6)] show ?thesis .
  next
    assume "n \<in> set pushed"
    with p(2) show ?thesis unfolding fc(1,6) by blast
  qed
qed

lemma crawl_body_eval:
  assumes "fst (crawl_body w q c) = e" "fst (snd (crawl_body w q c)) = q'"
    "visited (snd (snd (crawl_body w q c))) = V" "results (snd (snd (crawl_body w q c))) = R"
  shows "crawl_body w q c = (e, q', c\<lparr>visited := V, results := R\<rparr>)"
proof -
  obtain e1 q1 c1 where b: "crawl_body w q c = (e1, q1, c1)" by (cases "crawl_body w q c") auto
  from crawl_body_crawler[OF b] assms b show ?thesis by simp
qed

lemma stored_entry:
  assumes "Crawler_init w start mp md dl ua ext = Inr c0"
    and "(reach w c0 enq deq (e, q, c) \<and> results c = res)
         \<or> main_crawl w start mp md dl ua ext = Some (Inr res)"
    and "(k, en) \<in> set res"
  shows "entry_inv w c0 k en"
proof -
  from store_cases[OF assms(1,2)] obtain enq' deq' e' q' c' where
    r: "reach w c0 enq' deq' (e', q', c')" and s: "results c' = res" by blast
  from Crawler_init_fresh[OF assms(1)] have "results c0 = []" by simp
  from reach_entries[OF r this] assms(3) s show ?thesis by blast
qed

lemma stored_out_link:
  assumes "entry_inv w c0 k (Page p)" "n \<in> set (out_links p)"
  shows "\<exists>links. link_ok w c0 k links n"
proof -
  obtain st body hs where f: "fetch w k = (st, body, hs)" by (cases "fetch w k") auto
  show ?thesis
  proof (cases "st = 200 \<and> \<not> startswith body ''__fetch_error__''")
    case True
    with assms f show ?thesis by (auto simp: entry_inv_def)
  next
    case False
    with assms f show ?thesis by (auto simp: entry_inv_def)
  qed
qed

text \<open>The loop body never reads a robots.txt.\<close>

lemma robots_read_unused:
  "normalize_url (w\<lparr>robots_read := rr\<rparr>) b l = normalize_url w b l"
  "same_domain (w\<lparr>robots_read := rr\<rparr>) b n = same_domain w b n"
  "fetch (w\<lparr>robots_read := rr\<rparr>) u = fetch w u"
  "extract_links_and_forms (w\<lparr>robots_read := rr\<rparr>) u html = extract_links_and_forms w u html"
  by (simp_all add: normalize_url_def same_domain_def fetch_def extract_links_and_forms_def
        cong: sum.case_cong)

lemma link_loop_robots_read:
  "link_loop (w\<lparr>robots_read := rr\<rparr>) u d links acc = link_loop w u d links acc"
proof (induction links arbitrary: acc)
  case Nil
  then show ?case by simp
next
  case (Cons l links)
  obtain nz q c where acc: "acc = (nz, q, c)" by (cases acc) auto
  show ?case unfolding acc by (simp add: robots_read_unused Cons split: sum.splits)
qed

lemma resolve_forms_robots_read:
  "resolve_forms (w\<lparr>robots_read := rr\<rparr>) u fs = resolve_forms w u fs"
  by (induction fs) (simp_all add: robots_read_unused cong: sum.case_cong)

lemma crawl_body_robots_read:
  "crawl_body (w\<lparr>robots_read := rr\<rparr>) q c = crawl_body w q c"
  by (simp add: crawl_body_def robots_read_unused link_loop_robots_read
        resolve_forms_robots_read
      cong: list.case_cong prod.case_cong sum.case_cong if_cong)


subsection \<open>The runs on the concrete sites\<close>

lemma x_parse:
  "py_urlparse ''http://x.test'' [] =
     Inr \<lparr> scheme = ''http'', netloc = ''x.test'', path = [], params = [], query = [],
           fragment = [] \<rparr>"
  by code_simp

lemma x_rstrip: "rstrip_slash ''http://x.test/'' = ''http://x.test''"
  by code_simp

lemma x_crawler_init:
  "Crawler_init (one_page hrefs) ''http://x.test/'' 10 1 1 default_user_agent False = Inr x_crawler"
  by (simp add: Crawler_init_def RobotsChecker_init_def one_page_def site_world_def x_rstrip
        x_parse no_robots_def x_crawler_def)

lemma x_test_run:
  "main_crawl x_test ''http://x.test/'' 10 1 1 default_user_agent False = Some (Inr x_result)"
  by code_simp

lemma x_reach_start:
  "reach x_test x_crawler [''http://x.test''] []
     (None, [(''http://x.test'', 0)], x_crawler\<lparr>visited := {''http://x.test''}\<rparr>)"
proof -
  have "crawl_start x_crawler
        = ([(''http://x.test'', 0)], x_crawler\<lparr>visited := {''http://x.test''}\<rparr>)"
    by (simp add: crawl_start_def x_crawler_def)
  from reach_start[OF this, of x_test] show ?thesis by simp
qed

lemma x_step1:
  "crawl_body x_test [(''http://x.test'', 0)] (x_crawler\<lparr>visited := {''http://x.test''}\<rparr>)
   = (None, [(''http://x.test/a'', 1)], x_mid)"
proof -
  have "crawl_body x_test [(''http://x.test'', 0)] (x_crawler\<lparr>visited := {''http://x.test''}\<rparr>)
   = (None, [(''http://x.test/a'', 1)],
      x_crawler\<lparr>visited := {''http://x.test''}\<rparr>
        \<lparr>visited := {''http://x.test'', ''http://x.test/a''}, results := [hd x_result]\<rparr>)"
    by (rule crawl_body_eval; code_simp)
  then show ?thesis by (simp add: x_mid_def)
qed

lemma x_reach_mid:
  "reach x_test x_crawler [''http://x.test'', ''http://x.test/a''] [''http://x.test'']
     (None, [(''http://x.test/a'', 1)], x_mid)"
proof -
  have "loop_cond [(''http://x.test'', 0)] (x_crawler\<lparr>visited := {''http://x.test''}\<rparr>)"
    by (simp add: loop_cond_def x_crawler_def)
  from reach_body[OF x_reach_start this x_step1] show ?thesis by simp
qed

lemma x_step2: "crawl_body x_test [(''http://x.test/a'', 1)] x_mid = (None, [], x_final)"
proof -
  have "crawl_body x_test [(''http://x.test/a'', 1)] x_mid
   = (None, [], x_mid\<lparr>visited := {''http://x.test'', ''http://x.test/a''}, results := x_result\<rparr>)"
    by (rule crawl_body_eval; code_simp)
  then show ?thesis by (simp add: x_mid_def x_final_def)
qed

lemma x_loop_cond_mid: "loop_cond [(''http://x.test/a'', 1)] x_mid"
  by (simp add: loop_cond_def x_mid_def x_crawler_def x_result_def)

lemma x_reach_final:
  "reach x_test x_crawler [''http://x.test'', ''http://x.test/a'']
     [''http://x.test'', ''http://x.test/a''] (None, [], x_final)"
  using reach_body[OF x_reach_mid x_loop_cond_mid x_step2] by simp

lemma x_test_init:
  "Crawler_init x_test ''http://x.test/'' 10 1 1 default_user_agent False = Inr x_crawler"
  unfolding x_test_def by (rule x_crawler_init)

lemma mail_site_run:
  "main_crawl mail_site ''http://x.test/'' 10 1 1 default_user_agent False = Some (Inr x_result)"
  by code_simp

lemma ftp_site_run:
  "main_crawl ftp_site ''http://x.test/'' 10 1 1 default_user_agent False = Some (Inr ftp_result)"
  by code_simp

lemma ftp_site_init:
  "Crawler_init ftp_site ''http://x.test/'' 10 1 1 default_user_agent False = Inr x_crawler"
  unfolding ftp_site_def by (rule x_crawler_init)

lemma mail_site_init:
  "Crawler_init mail_site ''http://x.test/'' 10 1 1 default_user_agent False = Inr x_crawler"
  unfolding mail_site_def by (rule x_crawler_init)

lemma a_parse:
  "py_urlparse ''http://a.test'' [] =
     Inr \<lparr> scheme = ''http'', netloc = ''a.test'', path = [], params = [], query = [],
           fragment = [] \<rparr>"
  by code_simp

lemma a_rstrip: "rstrip_slash ''http://a.test'' = ''http://a.test''"
  by code_simp

lemma a_crawler_init:
  "Crawler_init two_sites ''http://a.test'' 10 1 1 default_user_agent True = Inr a_crawler"
  by (simp add: Crawler_init_def RobotsChecker_init_def two_sites_def site_world_def a_rstrip
        a_parse robots_url_def a_crawler_def)

lemma a_reach_start:
  "reach two_sites a_crawler [''http://a.test''] []
     (None, [(''http://a.test'', 0)], a_crawler\<lparr>visited := {''http://a.test''}\<rparr>)"
proof -
  have "crawl_start a_crawler
        = ([(''http://a.test'', 0)], a_crawler\<lparr>visited := {''http://a.test''}\<rparr>)"
    by (simp add: crawl_start_def a_crawler_def)
  from reach_start[OF this, of two_sites] show ?thesis by simp
qed

lemma a_step1:
  "crawl_body two_sites [(''http://a.test'', 0)] (a_crawler\<lparr>visited := {''http://a.test''}\<rparr>)
   = (None, [(''http://b.test/secret'', 1)], a_mid)"
proof -
  have "crawl_body two_sites [(''http://a.test'', 0)] (a_crawler\<lparr>visited := {''http://a.test''}\<rparr>)
   = (None, [(''http://b.test/secret'', 1)],
      a_crawler\<lparr>visited := {''http://a.test''}\<rparr>
        \<lparr>visited := {''http://a.test'', ''http://b.test/secret''}, results := [hd a_result]\<rparr>)"
    by (rule crawl_body_eval; code_simp)
  then show ?thesis by (simp add: a_mid_def)
qed

lemma a_reach_mid:
  "reach two_sites a_crawler [''http://a.test'', ''http://b.test/secret''] [''http://a.test'']
     (None, [(''http://b.test/secret'', 1)], a_mid)"
proof -
  have "loop_cond [(''http://a.test'', 0)] (a_crawler\<lparr>visited := {''http://a.test''}\<rparr>)"
    by (simp add: loop_cond_def a_crawler_def)
  from reach_body[OF a_reach_start this a_step1] show ?thesis by simp
qed

lemma marker_site_run:
  "main_crawl marker_site ''http://x.test/'' 10 1 1 default_user_agent False
   = Some (Inr marker_result)"
  by code_simp


lemma guarded_site_run:
  "main_crawl guarded_site ''http://x.test/'' 10 1 1 default_user_agent False
     = Some (Inr guarded_result)"
  by code_simp

lemma guarded_site_init:
  "Crawler_init guarded_site ''http://x.test/'' 10 1 1 default_user_agent False
     = Inr guarded_crawler"
  by (simp add: Crawler_init_def RobotsChecker_init_def guarded_site_def one_page_def
        site_world_def x_rstrip x_parse guarded_crawler_def x_crawler_def)

subsection \<open>Fragments\<close>

text \<open>
  The \<^verbatim>\<open>urljoin\<close> of the standard library, as modelled, gives a URL without \<^verbatim>\<open>#\<close> when
  the link has none and is not empty; an empty link gives the base URL back.
\<close>

lemma scheme_chars_lower: "\<forall>c \<in> set scheme_chars. lower_char c \<noteq> CHR ''#''"
  by code_simp

lemma split_scheme_hash:
  assumes "split_scheme u d = (sch, rest)"
  shows "(hash_free sch \<or> sch = d) \<and> set rest \<subseteq> set u"
proof (cases "sch = d \<and> rest = u")
  case True
  then show ?thesis by simp
next
  case False
  with assms have s: "sch = lower (takeWhile (\<lambda>c. c \<noteq> CHR '':'') u)"
    and r: "rest = drop (length (takeWhile (\<lambda>c. c \<noteq> CHR '':'') u) + 1) u"
    and a: "\<forall>c \<in> set (takeWhile (\<lambda>c. c \<noteq> CHR '':'') u). c \<in> set scheme_chars"
    by (auto simp: split_scheme_def Let_def split: if_splits)
  from a scheme_chars_lower have "hash_free sch"
    unfolding s hash_free_def lower_def by auto
  moreover from r have "set rest \<subseteq> set u" by (auto dest: in_set_dropD)
  ultimately show ?thesis by simp
qed

lemma split_at_sets: "set (fst (split_at ch s)) \<subseteq> set s" "set (snd (split_at ch s)) \<subseteq> set s"
  "ch \<notin> set (fst (split_at ch s))"
  by (auto simp: split_at_def dest: set_takeWhileD in_set_dropD set_dropWhileD)

lemma filter_c0_sets: "set (remove_unsafe (dropWhile c0_control_or_space u)) \<subseteq> set u"
  by (auto simp: remove_unsafe_def dest: set_dropWhileD)

lemma urlsplit_hash:
  assumes "urlsplit u0 s0 = Inr (sch, nl, p, q, f)"
  shows "hash_free nl \<and> hash_free p \<and> hash_free q \<and> (hash_free u0 \<longrightarrow> f = [])
         \<and> (hash_free s0 \<longrightarrow> hash_free sch)"
proof -
  define u1 where "u1 = remove_unsafe (dropWhile c0_control_or_space u0)"
  define s1 where "s1 = remove_unsafe (rev (dropWhile c0_control_or_space
                                    (rev (dropWhile c0_control_or_space s0))))"
  obtain sch' u2 where ss: "split_scheme u1 s1 = (sch', u2)" by (cases "split_scheme u1 s1") auto
  define nl' where "nl' = (if take 2 u2 = ''//'' then fst (splitnetloc (drop 2 u2)) else [])"
  define u3 where "u3 = (if take 2 u2 = ''//'' then snd (splitnetloc (drop 2 u2)) else u2)"
  define u4 where "u4 = (if CHR ''#'' \<in> set u3 then fst (split_at CHR ''#'' u3) else u3)"
  define f' where "f' = (if CHR ''#'' \<in> set u3 then snd (split_at CHR ''#'' u3) else [])"
  define u5 where "u5 = (if CHR ''?'' \<in> set u4 then fst (split_at CHR ''?'' u4) else u4)"
  define q' where "q' = (if CHR ''?'' \<in> set u4 then snd (split_at CHR ''?'' u4) else [])"
  from assms have eq: "sch = sch'" "nl = nl'" "p = u5" "q = q'" "f = f'"
    by (auto simp: urlsplit_def Let_def u1_def[symmetric] s1_def[symmetric] ss nl'_def u3_def
          u4_def f'_def u5_def q'_def split: if_splits prod.splits)
  have u1: "set u1 \<subseteq> set u0" unfolding u1_def by (rule filter_c0_sets)
  have s1: "set s1 \<subseteq> set s0"
    unfolding s1_def remove_unsafe_def by (auto dest!: set_dropWhileD)
  from split_scheme_hash[OF ss] have sc: "hash_free sch' \<or> sch' = s1" and u2: "set u2 \<subseteq> set u1"
    by auto
  have nlh: "hash_free nl'"
    by (auto simp: nl'_def splitnetloc_def hash_free_def dest: set_takeWhileD)
  have u3: "set u3 \<subseteq> set u2"
    by (auto simp: u3_def splitnetloc_def dest: set_dropWhileD in_set_dropD)
  have u4h: "hash_free u4"
    using split_at_sets(3)[of "CHR ''#''" u3] by (auto simp: u4_def hash_free_def)
  have "set u5 \<subseteq> set u4" "set q' \<subseteq> set u4"
    using split_at_sets(1,2)[of "CHR ''?''" u4] by (auto simp: u5_def q'_def)
  with u4h have h5: "hash_free u5" "hash_free q'" by (auto simp: hash_free_def)
  have "f' = []" if "hash_free u0"
    using that u1 u2 u3 by (auto simp: f'_def hash_free_def)
  moreover have "hash_free sch'" if "hash_free s0"
    using that sc s1 by (auto simp: hash_free_def)
  ultimately show ?thesis using nlh h5 unfolding eq by simp
qed

lemma splitparams_sets:
  "set (fst (splitparams p)) \<subseteq> set p" "set (snd (splitparams p)) \<subseteq> set p"
  by (auto simp: splitparams_def Let_def
        dest!: subsetD[OF split_at_sets(1)] subsetD[OF split_at_sets(2)]
        dest: in_set_takeD in_set_dropD)

lemma py_urlparse_hash:
  assumes "py_urlparse u s0 = Inr r"
  shows "hash_free (netloc r) \<and> hash_free (path r) \<and> hash_free (params r)
         \<and> hash_free (query r) \<and> (hash_free u \<longrightarrow> fragment r = [])
         \<and> (hash_free s0 \<longrightarrow> hash_free (scheme r))"
proof -
  from assms obtain sch nl p q f where sp: "urlsplit u s0 = Inr (sch, nl, p, q, f)"
    by (auto simp: py_urlparse_def split: sum.splits)
  from urlsplit_hash[OF sp] have h: "hash_free nl" "hash_free p" "hash_free q"
    "hash_free u \<longrightarrow> f = []" "hash_free s0 \<longrightarrow> hash_free sch" by auto
  from assms sp have r: "scheme r = sch" "netloc r = nl" "query r = q" "fragment r = f"
    "set (path r) \<subseteq> set p" "set (params r) \<subseteq> set p"
    using splitparams_sets[of p]
    by (auto simp: py_urlparse_def Let_def split: if_splits prod.splits)
  from r(5,6) h(2) have "hash_free (path r)" "hash_free (params r)"
    by (auto simp: hash_free_def)
  with h r show ?thesis by simp
qed

lemma hash_free_simps [simp]:
  "hash_free []" "hash_free (a @ b) = (hash_free a \<and> hash_free b)"
  "hash_free (c # a) = (c \<noteq> CHR ''#'' \<and> hash_free a)"
  by (auto simp: hash_free_def)

lemma urlunsplit_hash:
  assumes "hash_free sch" "hash_free nl" "hash_free u" "hash_free q"
  shows "hash_free (urlunsplit sch nl u q [])"
  using assms by (simp add: urlunsplit_def Let_def)

lemma urlunparse_hash:
  assumes "hash_free (scheme r)" "hash_free (netloc r)" "hash_free (path r)"
    "hash_free (params r)" "hash_free (query r)" "fragment r = []"
  shows "hash_free (urlunparse r)"
  using assms by (simp add: urlunparse_def urlunsplit_hash)

lemma split_slash_hash: "hash_free s \<Longrightarrow> \<forall>seg \<in> set (split_slash s). hash_free seg"
  by (induction s) (auto split: list.splits)

lemma join_slash_hash: "\<forall>seg \<in> set ps. hash_free seg \<Longrightarrow> hash_free (join_slash ps)"
  by (induction ps rule: join_slash.induct) auto

lemma resolve_segments_hash:
  "\<forall>seg \<in> set segs. hash_free seg \<Longrightarrow> \<forall>seg \<in> set acc. hash_free seg
   \<Longrightarrow> \<forall>seg \<in> set (resolve_segments segs acc). hash_free seg"
  by (induction segs acc rule: resolve_segments.induct) (auto dest: in_set_butlastD)

lemma py_urljoin_hash:
  assumes "py_urljoin base u = Inr n" "hash_free u" "u \<noteq> []"
  shows "hash_free n"
proof (cases "base = []")
  case True
  with assms show ?thesis by (simp add: py_urljoin_def)
next
  case False
  with assms obtain b r where pb: "py_urlparse base [] = Inr b"
    and pr: "py_urlparse u (scheme b) = Inr r"
    by (auto simp: py_urljoin_def split: sum.splits)
  from py_urlparse_hash[OF pb] have hb: "hash_free (netloc b)" "hash_free (path b)"
    "hash_free (params b)" "hash_free (query b)" "hash_free (scheme b)" by auto
  from py_urlparse_hash[OF pr] assms(2) hb(5) have hr: "hash_free (netloc r)"
    "hash_free (path r)" "hash_free (params r)" "hash_free (query r)" "fragment r = []"
    "hash_free (scheme r)" by auto
  define bp0 where "bp0 = split_slash (path b)"
  define base_parts where "base_parts = (if last bp0 \<noteq> [] then butlast bp0 else bp0)"
  define segs0 where "segs0 = base_parts @ split_slash (path r)"
  define segments where "segments =
     (if take 1 (path r) = ''/'' then split_slash (path r)
      else if length segs0 < 2 then segs0
      else hd segs0 # filter (\<lambda>s. s \<noteq> []) (butlast (tl segs0)) @ [last segs0])"
  define resolved0 where "resolved0 = resolve_segments segments []"
  define resolved where "resolved = (if last segments \<in> set [''.'', ''..'']
                                         then resolved0 @ [[]] else resolved0)"
  define joined where "joined = join_slash resolved"
  have bp: "\<forall>seg \<in> set base_parts. hash_free seg"
    using split_slash_hash[OF hb(2)] by (auto simp: base_parts_def bp0_def dest: in_set_butlastD)
  have s0: "\<forall>seg \<in> set segs0. hash_free seg"
    using bp split_slash_hash[OF hr(2)] by (auto simp: segs0_def)
  have s0ne: "segs0 \<noteq> []" if "\<not> length segs0 < 2" using that by auto
  have sg: "\<forall>seg \<in> set segments. hash_free seg"
  proof (cases "take 1 (path r) = ''/''")
    case True
    then show ?thesis using split_slash_hash[OF hr(2)] by (simp add: segments_def)
  next
    case f1: False
    show ?thesis
    proof (cases "length segs0 < 2")
      case True
      with f1 s0 show ?thesis by (simp add: segments_def)
    next
      case False
      then have ne: "segs0 \<noteq> []" by auto
      then have "hd segs0 \<in> set segs0" "last segs0 \<in> set segs0" by auto
      moreover have "set (butlast (tl segs0)) \<subseteq> set segs0"
        by (meson in_set_butlastD list.set_sel(2) ne subsetI)
      ultimately show ?thesis using f1 False s0 by (auto simp: segments_def)
    qed
  qed
  from resolve_segments_hash[OF sg, of "[]"] have "\<forall>seg \<in> set resolved. hash_free seg"
    by (auto simp: resolved_def resolved0_def)
  from join_slash_hash[OF this] have jh: "hash_free joined" by (simp add: joined_def)
  define nl where "nl = (if scheme r \<in> set uses_netloc then netloc b else netloc r)"
  have nlh: "hash_free nl" using hb(1) hr(1) by (simp add: nl_def)
  have eq: "py_urljoin base u = Inr
     (if scheme r \<noteq> scheme b \<or> scheme r \<notin> set uses_relative then u
      else if scheme r \<in> set uses_netloc \<and> netloc r \<noteq> [] then urlunparse r
      else if path r = [] \<and> params r = []
      then urlunparse (r\<lparr>netloc := nl, path := path b, params := params b,
                        query := (if query r = [] then query b else query r)\<rparr>)
      else urlunparse (r\<lparr>netloc := nl, path := (if joined = [] then ''/'' else joined)\<rparr>))"
    using False assms(3)
    by (simp add: py_urljoin_def pb pr Let_def joined_def resolved_def resolved0_def
          segments_def segs0_def base_parts_def bp0_def nl_def)
  have h1: "hash_free (urlunparse r)" using hr by (intro urlunparse_hash) auto
  have h2: "hash_free (urlunparse (r\<lparr>netloc := nl, path := path b, params := params b,
                        query := (if query r = [] then query b else query r)\<rparr>))"
    using hr hb nlh by (intro urlunparse_hash) auto
  have h3: "hash_free (urlunparse (r\<lparr>netloc := nl,
                        path := (if joined = [] then ''/'' else joined)\<rparr>))"
    using hr hb nlh jh by (intro urlunparse_hash) auto
  from assms(1) eq h1 h2 h3 assms(2) show ?thesis by (auto split: if_splits)
qed

lemma crawl_body_pushed_from:
  assumes "crawl_body w ((u, d) # q1) c = (e, q', c')"
  shows "\<exists>pushed. q' = q1 @ map (\<lambda>n. (n, d + 1)) pushed
           \<and> (\<forall>n \<in> set pushed. \<exists>link. normalize_url w u link = Inr n)"
proof (cases "d \<le> max_depth c \<and> can_fetch (robots c) u \<and> fst (fetch w u) = 200
                \<and> \<not> startswith (fst (snd (fetch w u))) ''__fetch_error__''")
  case False
  with assms have "q' = q1"
    by (auto simp: crawl_body_def Let_def split: prod.splits if_splits)
  then show ?thesis by (intro exI[of _ "[]"]) simp
next
  case True
  obtain links fs where x: "extract_links_and_forms w u (fst (snd (fetch w u))) = (links, fs)"
    by (cases "extract_links_and_forms w u (fst (snd (fetch w u)))") auto
  obtain nz q2 c2 where l: "link_loop w u d links ([], q1, c) = (nz, q2, c2)"
    by (cases "link_loop w u d links ([], q1, c)") auto
  from assms True x l have "q' = q2"
    by (auto simp: crawl_body_def Let_def split: prod.splits if_splits sum.splits)
  moreover from link_loop_pushed[OF l] obtain pushed where
    "q2 = q1 @ map (\<lambda>n. (n, d + 1)) pushed" "\<forall>n \<in> set pushed. link_ok w c u links n"
    by blast
  ultimately have "q' = q1 @ map (\<lambda>n. (n, d + 1)) pushed
           \<and> (\<forall>n \<in> set pushed. \<exists>link. normalize_url w u link = Inr n)"
    by (auto simp: link_ok_def)
  then show ?thesis ..
qed

text \<open>The model has the property \<open>join_fragment_free\<close>.\<close>

lemma py_join_fragment_free:
  assumes "urljoin w = py_urljoin"
  shows "join_fragment_free w"
proof -
  have "n = base" if "py_urljoin base [] = Inr n" for base n
    using that by (auto simp: py_urljoin_def split: if_splits)
  with py_urljoin_hash show ?thesis unfolding join_fragment_free_def assms by blast
qed

text \<open>
  With a \<^verbatim>\<open>urljoin\<close> of that property, every URL put on the queue, and so every
  out-link, is without \<^verbatim>\<open>#\<close> when the start URL is.
\<close>

lemma normalize_url_hash:
  assumes "join_fragment_free w" "normalize_url w k link = Inr n" "hash_free k"
  shows "hash_free n"
proof (cases "before_hash link = []")
  case True
  with assms show ?thesis by (auto simp: normalize_url_def join_fragment_free_def)
next
  case False
  have "hash_free (before_hash link)"
    by (auto simp: before_hash_def hash_free_def dest: set_takeWhileD)
  with False assms(1,2) show ?thesis
    unfolding normalize_url_def join_fragment_free_def by blast
qed

lemma reach_enq_hash_free:
  assumes "reach w c0 enq deq (e, q, c)" "visited c0 = {}" "join_fragment_free w"
    "hash_free (start_url c0)"
  shows "\<forall>n \<in> set enq. hash_free n"
  using assms(1)
proof (induction enq deq "(e, q, c)" arbitrary: e q c rule: reach.induct)
  case (reach_start q c)
  then show ?case using assms(4) by (simp add: crawl_start_eq)
next
  case (reach_body enq deq q c e q' c')
  from loop_cond_Cons[OF reach_body(3)] obtain u d q1 where q: "q = (u, d) # q1" by blast
  from reach_queue[OF reach_body(1) assms(2)] q have "u \<in> set enq" by simp
  with reach_body(2) have hu: "hash_free u" by blast
  from crawl_body_pushed_from[OF reach_body(4)[unfolded q]] obtain pushed where
    p: "q' = q1 @ map (\<lambda>n. (n, d + 1)) pushed"
       "\<forall>n \<in> set pushed. \<exists>link. normalize_url w u link = Inr n" by blast
  have dr: "map fst (drop (length q - 1) q') = pushed"
    using p(1) q by (simp add: comp_def)
  from p(2) hu have "\<forall>n \<in> set pushed. hash_free n"
    using normalize_url_hash[OF assms(3)] by blast
  with reach_body(2) show ?case unfolding dr by auto
qed

lemma stored_out_link_hash_free:
  assumes "reach w c0 enq deq (e, q, c)" "visited c0 = {}" "results c0 = []"
    "join_fragment_free w" "hash_free (start_url c0)"
    "(k, Page p) \<in> set (results c)" "n \<in> set (out_links p)"
  shows "hash_free n"
proof -
  from reach_keys[OF assms(1,3)] assms(6) have "k \<in> set deq" by force
  with reach_queue[OF assms(1,2)] have "k \<in> set enq" by simp
  with reach_enq_hash_free[OF assms(1,2,4,5)] have hk: "hash_free k" by blast
  from reach_entries[OF assms(1,3)] assms(6) have "entry_inv w c0 k (Page p)" by blast
  from stored_out_link[OF this assms(7)] obtain links where "link_ok w c0 k links n" ..
  then obtain link where "normalize_url w k link = Inr n" by (auto simp: link_ok_def)
  from normalize_url_hash[OF assms(4) this hk] show ?thesis .
qed

subsection \<open>Schemes\<close>

text \<open>
  The scheme that \<^verbatim>\<open>urlparse\<close>, as modelled, finds in a URL: the one written in front
  of its first colon, or else the default.
\<close>

lemma py_urlparse_scheme:
  assumes "py_urlparse u d = Inr r"
  shows "scheme r = fst (split_scheme (remove_unsafe (dropWhile c0_control_or_space u))
           (remove_unsafe (rev (dropWhile c0_control_or_space
                                 (rev (dropWhile c0_control_or_space d))))))"
  using assms
  by (auto simp: py_urlparse_def urlsplit_def Let_def split: sum.splits prod.splits if_splits)

lemma split_scheme_written:
  assumes "fst (split_scheme u d) \<noteq> d"
  shows "fst (split_scheme u d') = fst (split_scheme u d) \<and> fst (split_scheme u d) \<noteq> []"
  using assms by (auto simp: split_scheme_def Let_def lower_def split: if_splits)

lemma split_scheme_http:
  "fst (split_scheme (''http'' @ CHR '':'' # rest) d) = ''http''"
  "fst (split_scheme (''https'' @ CHR '':'' # rest) d) = ''https''"
  by (simp_all add: split_scheme_def Let_def lower_def lower_char_def ascii_letters_def
        scheme_chars_def)

lemma clean_http:
  "remove_unsafe (dropWhile c0_control_or_space (''http'' @ CHR '':'' # rest))
     = ''http'' @ CHR '':'' # remove_unsafe rest"
  "remove_unsafe (dropWhile c0_control_or_space (''https'' @ CHR '':'' # rest))
     = ''https'' @ CHR '':'' # remove_unsafe rest"
  by (simp_all add: remove_unsafe_def c0_control_or_space_def)

lemma default_http:
  "remove_unsafe (rev (dropWhile c0_control_or_space
     (rev (dropWhile c0_control_or_space ''http'')))) = ''http''"
  "remove_unsafe (rev (dropWhile c0_control_or_space
     (rev (dropWhile c0_control_or_space ''https'')))) = ''https''"
  "remove_unsafe (rev (dropWhile c0_control_or_space
     (rev (dropWhile c0_control_or_space [])))) = []"
  by code_simp+

lemma py_urlparse_http:
  "py_urlparse (''http'' @ CHR '':'' # rest) d = Inr r \<Longrightarrow> scheme r = ''http''"
  "py_urlparse (''https'' @ CHR '':'' # rest) d = Inr r \<Longrightarrow> scheme r = ''https''"
  by (drule py_urlparse_scheme, simp only: clean_http split_scheme_http)+

lemma py_urlparse_empty:
  "py_urlparse [] [] = Inr \<lparr> scheme = [], netloc = [], path = [], params = [], query = [],
                             fragment = [] \<rparr>"
  by code_simp

lemma urlunparse_scheme:
  assumes "scheme r \<noteq> []"
  shows "\<exists>rest. urlunparse r = scheme r @ CHR '':'' # rest"
  using assms by (simp add: urlunparse_def urlunsplit_def Let_def)

lemma same_scheme_unparse:
  "scheme y = s \<Longrightarrow> \<exists>x. urlunparse y = urlunparse x \<and> scheme x = s"
  by blast

lemma py_urljoin_cases:
  assumes "py_urljoin base u = Inr n" "base \<noteq> []" "u \<noteq> []"
  shows "\<exists>b r. py_urlparse base [] = Inr b \<and> py_urlparse u (scheme b) = Inr r
           \<and> ((n = u \<and> scheme r \<noteq> scheme b)
               \<or> (n = u \<and> scheme r \<notin> set uses_relative)
               \<or> (\<exists>x. n = urlunparse x \<and> scheme x = scheme b))"
proof -
  from assms obtain b r where pb: "py_urlparse base [] = Inr b"
    and pr: "py_urlparse u (scheme b) = Inr r"
    by (auto simp: py_urljoin_def split: sum.splits)
  show ?thesis
  proof (cases "scheme r \<noteq> scheme b \<or> scheme r \<notin> set uses_relative")
    case True
    with assms pb pr have "n = u" by (simp add: py_urljoin_def)
    with True pb pr show ?thesis by blast
  next
    case False
    then have s: "scheme r = scheme b" by simp
    have "\<exists>x. n = urlunparse x \<and> scheme x = scheme b"
      using assms False
      by (auto simp: py_urljoin_def pb pr Let_def split: if_splits intro!: same_scheme_unparse)
    with pb pr show ?thesis by blast
  qed
qed

text \<open>The model has the property \<open>join_has_scheme\<close>.\<close>

lemma py_join_has_scheme:
  assumes "urlparse w = (\<lambda>u. py_urlparse u [])" "urljoin w = py_urljoin"
  shows "join_has_scheme w"
proof -
  have "scheme r \<noteq> []"
    if j: "py_urljoin base u = Inr n" and pb: "py_urlparse base [] = Inr b"
      and sb: "scheme b = ''http'' \<or> scheme b = ''https''" and pn: "py_urlparse n [] = Inr r"
    for base u n b r
  proof -
    have bne: "base \<noteq> []"
    proof
      assume "base = []"
      with pb have "scheme b = []" by (auto simp: py_urlparse_empty)
      with sb show False by auto
    qed
    show ?thesis
    proof (cases "u = []")
      case True
      with j bne have "n = base" by (simp add: py_urljoin_def)
      with pb pn sb show ?thesis by auto
    next
      case False
      from py_urljoin_cases[OF j bne False] obtain b' ru where
        pb': "py_urlparse base [] = Inr b'" and pu: "py_urlparse u (scheme b') = Inr ru"
        and c: "(n = u \<and> scheme ru \<noteq> scheme b') \<or> (n = u \<and> scheme ru \<notin> set uses_relative)
                \<or> (\<exists>x. n = urlunparse x \<and> scheme x = scheme b')"
        by blast
      from pb pb' have b': "b' = b" by simp
      have rel: "scheme b \<in> set uses_relative" using sb by (auto simp: uses_relative_def)
      have dn: "remove_unsafe (rev (dropWhile c0_control_or_space
                  (rev (dropWhile c0_control_or_space (scheme b))))) = scheme b"
      proof -
        from sb show ?thesis
        proof
          assume h: "scheme b = ''http''"
          show ?thesis unfolding h by (rule default_http(1))
        next
          assume h: "scheme b = ''https''"
          show ?thesis unfolding h by (rule default_http(2))
        qed
      qed
      from c show ?thesis
      proof (elim disjE conjE exE)
        assume n: "n = u" and d: "scheme ru \<noteq> scheme b'"
        from py_urlparse_scheme[OF pu] d
        have "fst (split_scheme (remove_unsafe (dropWhile c0_control_or_space u)) (scheme b))
                \<noteq> scheme b" "scheme ru
                = fst (split_scheme (remove_unsafe (dropWhile c0_control_or_space u)) (scheme b))"
          unfolding b' dn by simp_all
        with split_scheme_written[OF this(1), of "[]"] py_urlparse_scheme[OF pn]
        show ?thesis unfolding n default_http by simp
      next
        assume n: "n = u" and d: "scheme ru \<notin> set uses_relative"
        show ?thesis
        proof (cases "scheme ru = scheme b")
          case True
          with d rel show ?thesis by simp
        next
          case f: False
          from py_urlparse_scheme[OF pu] f
          have "fst (split_scheme (remove_unsafe (dropWhile c0_control_or_space u)) (scheme b))
                  \<noteq> scheme b"
            unfolding b' dn by simp
          with split_scheme_written[OF this, of "[]"] py_urlparse_scheme[OF pn]
          show ?thesis unfolding n default_http by simp
        qed
      next
        fix x assume n: "n = urlunparse x" and sx: "scheme x = scheme b'"
        from sx sb b' have "scheme x \<noteq> []" by auto
        from urlunparse_scheme[OF this] obtain rest where
          nr: "n = scheme b @ CHR '':'' # rest" unfolding n sx b' by blast
        from sb show ?thesis
        proof
          assume h: "scheme b = ''http''"
          from pn[unfolded nr h] have "scheme r = ''http''" by (rule py_urlparse_http(1))
          then show ?thesis by simp
        next
          assume h: "scheme b = ''https''"
          from pn[unfolded nr h] have "scheme r = ''https''" by (rule py_urlparse_http(2))
          then show ?thesis by simp
        qed
      qed
    qed
  qed
  then show ?thesis unfolding join_has_scheme_def assms by blast
qed

text \<open>
  A site that answers only URLs beginning with \<^verbatim>\<open>http://\<close> or \<^verbatim>\<open>https://\<close> has the
  property \<open>fetches_http_only\<close>.
\<close>

lemma py_fetches_http_only:
  assumes "urlparse w = (\<lambda>u. py_urlparse u [])"
    and "\<forall>u resp. session_get w u = Inr resp
           \<longrightarrow> startswith u ''http://'' \<or> startswith u ''https://''"
  shows "fetches_http_only w"
proof -
  have "scheme b = ''http'' \<or> scheme b = ''https''"
    if g: "session_get w u = Inr resp" and p: "py_urlparse u [] = Inr b" for u resp b
  proof -
    from assms(2) g have "startswith u ''http://'' \<or> startswith u ''https://''" by blast
    then show ?thesis
    proof
      assume "startswith u ''http://''"
      then have t: "take (length ''http://'') u = ''http://''" unfolding startswith_def .
      have "''http://'' @ drop (length ''http://'') u = u"
        using append_take_drop_id[of "length ''http://''" u] unfolding t .
      then have "\<exists>rest. u = ''http'' @ CHR '':'' # rest"
        by (intro exI[of _ "''//'' @ drop (length ''http://'') u"]) simp
      then obtain rest where u: "u = ''http'' @ CHR '':'' # rest" ..
      from p[unfolded u] have "scheme b = ''http''" by (rule py_urlparse_http(1))
      then show ?thesis ..
    next
      assume "startswith u ''https://''"
      then have t: "take (length ''https://'') u = ''https://''" unfolding startswith_def .
      have "''https://'' @ drop (length ''https://'') u = u"
        using append_take_drop_id[of "length ''https://''" u] unfolding t .
      then have "\<exists>rest. u = ''https'' @ CHR '':'' # rest"
        by (intro exI[of _ "''//'' @ drop (length ''https://'') u"]) simp
      then obtain rest where u: "u = ''https'' @ CHR '':'' # rest" ..
      from p[unfolded u] have "scheme b = ''https''" by (rule py_urlparse_http(2))
      then show ?thesis ..
    qed
  qed
  then show ?thesis unfolding fetches_http_only_def assms(1) by blast
qed

text \<open>
  With libraries of the two properties, every out-link of a crawl that stays in scope
  has a scheme.
\<close>

lemma stored_out_link_has_scheme:
  assumes "reach w c0 enq deq (e, q, c)" "visited c0 = {}" "results c0 = []"
    "\<not> allowed_external c0" "urlparse w (start_url c0) = Inr b0"
    "fetches_http_only w" "join_has_scheme w"
    "(k, Page p) \<in> set (results c)" "n \<in> set (out_links p)"
  shows "\<exists>r. urlparse w n = Inr r \<and> scheme r \<noteq> []"
proof -
  from reach_keys[OF assms(1,3)] assms(8) have "k \<in> set deq" by force
  with reach_queue[OF assms(1,2)] have ke: "k \<in> set enq" by simp
  have "\<exists>pk. urlparse w k = Inr pk"
  proof (cases "k = start_url c0")
    case True
    with assms(5) show ?thesis by simp
  next
    case False
    from reach_enq_filtered[OF assms(1) ke False] assms(4)
    have "same_domain w (start_url c0) k" by simp
    then show ?thesis by (auto simp: same_domain_def split: sum.splits)
  qed
  then obtain pk where pk: "urlparse w k = Inr pk" ..
  from reach_entries[OF assms(1,3)] assms(8) have inv: "entry_inv w c0 k (Page p)" by blast
  obtain st body hs where f: "fetch w k = (st, body, hs)" by (cases "fetch w k") auto
  from inv f assms(9) have "st = 200"
    by (auto simp: entry_inv_def split: if_splits)
  with f obtain resp where g: "session_get w k = Inr resp"
    by (cases "session_get w k") (auto simp: fetch_def)
  from assms(6) g pk have sk: "scheme pk = ''http'' \<or> scheme pk = ''https''"
    unfolding fetches_http_only_def by blast
  from stored_out_link[OF inv assms(9)] obtain links where l: "link_ok w c0 k links n" ..
  then obtain link where j: "urljoin w k (before_hash link) = Inr n"
    by (auto simp: link_ok_def normalize_url_def)
  from l assms(4) have "same_domain w (start_url c0) n" by (simp add: link_ok_def)
  then obtain r where r: "urlparse w n = Inr r"
    by (auto simp: same_domain_def split: sum.splits)
  from assms(7) j pk sk r have "scheme r \<noteq> []" unfolding join_has_scheme_def by blast
  with r show ?thesis by blast
qed

text \<open>The single pages of \<^verbatim>\<open>x.test\<close> have the three properties.\<close>

lemma one_page_libraries:
  "fetches_http_only (one_page hrefs)" "join_has_scheme (one_page hrefs)"
  "join_fragment_free (one_page hrefs)"
proof -
  have u: "urlparse (one_page hrefs) = (\<lambda>u. py_urlparse u [])"
    and j: "urljoin (one_page hrefs) = py_urljoin"
    by (simp_all add: one_page_def site_world_def)
  have "\<forall>u resp. session_get (one_page hrefs) u = Inr resp
          \<longrightarrow> startswith u ''http://'' \<or> startswith u ''https://''"
    by (auto simp: one_page_def site_world_def startswith_def split: if_splits)
  from py_fetches_http_only[OF u this] show "fetches_http_only (one_page hrefs)" .
  from py_join_has_scheme[OF u j] show "join_has_scheme (one_page hrefs)" .
  from py_join_fragment_free[OF j] show "join_fragment_free (one_page hrefs)" .
qed

lemma in_all_out_links:
  "n \<in> set (all_out_links res) \<longleftrightarrow> (\<exists>k p. (k, Page p) \<in> set res \<and> n \<in> set (out_links p))"
proof (induction res)
  case Nil
  then show ?case by (simp add: all_out_links_def)
next
  case (Cons a res)
  obtain k en where a: "a = (k, en)" by (cases a) auto
  have "all_out_links (a # res)
        = (case en of Skipped r \<Rightarrow> [] | Page p \<Rightarrow> out_links p) @ all_out_links res"
    by (simp add: all_out_links_def a)
  with Cons show ?case unfolding a by (cases en) auto
qed

section \<open>The claims\<close>

text \<open>
  In the theorems below, \<open>res\<close> is a state of the result store of a run of a newly
  constructed crawler: the store at a point of the run, or the dictionary that \<^verbatim>\<open>crawl\<close>
  returns (which is the store at the last point, by \<open>main_crawl_reach\<close>; and every run
  ends, by \<open>main_crawl_total\<close>).
\<close>

text \<open>
  C1, as stated, fails, in two ways. With \<^verbatim>\<open>allowed_external=False\<close> the page
  \<^verbatim>\<open>http://x.test\<close> that links to \<^verbatim>\<open>https://x.test/a\<close> gets that link recorded in its
  \<^verbatim>\<open>out_links\<close> (and crawled), although its origin differs from the start URL's in the
  scheme. And a crawl started at \<^verbatim>\<open>http://x.test/#top\<close>, whose page has the anchor
  \<^verbatim>\<open>#sec\<close>, records the out-link \<^verbatim>\<open>http://x.test/#top\<close>, which has a fragment: the link
  cut at its \<^verbatim>\<open>#\<close> is empty, and \<^verbatim>\<open>urljoin\<close> gives the page's own URL back.
\<close>

theorem out_links_other_scheme:
  "main_crawl (one_page [''https://x.test/a'']) ''http://x.test/'' 10 1 1 default_user_agent False
   = Some (Inr
       [(''http://x.test'',
         Page \<lparr> url = ''http://x.test'', status = 200, headers = [], depth = 0, forms = [],
                out_links = [''https://x.test/a''], error = None \<rparr>),
        (''https://x.test/a'',
         Page \<lparr> url = ''https://x.test/a'', status = 404, headers = [], depth = 1, forms = [],
                out_links = [], error = Some ''Not Found'' \<rparr>)])
   \<and> spec_origin (one_page [''https://x.test/a'']) ''https://x.test/a''
       = Inr (''https'', ''x.test'')
   \<and> spec_origin (one_page [''https://x.test/a'']) ''http://x.test/''
       = Inr (''http'', ''x.test'')
   \<and> spec_origin (one_page [''https://x.test/a'']) ''https://x.test/a''
       \<noteq> spec_origin (one_page [''https://x.test/a'']) ''http://x.test/''
   \<and> main_crawl frag_site ''http://x.test/#top'' 10 1 1 default_user_agent False
       = Some (Inr
           [(''http://x.test/#top'',
             Page \<lparr> url = ''http://x.test/#top'', status = 200, headers = [], depth = 0,
                    forms = [], out_links = [''http://x.test/#top''], error = None \<rparr>)])
   \<and> \<not> hash_free ''http://x.test/#top''"
  by code_simp

text \<open>
  C1, amended. For every crawl run with \<^verbatim>\<open>allowed_external=False\<close>, every entry of the
  \<^verbatim>\<open>out_links\<close> of every stored record has the same netloc as the start URL with its
  trailing slashes stripped: \<^verbatim>\<open>urlparse\<close> succeeds on both and gives the same netloc
  text. The scheme is not compared, so the two origins can differ in the scheme and in
  the port that the scheme implies. Every such entry is an absolute URL, one in which
  \<^verbatim>\<open>urlparse\<close> finds a scheme, and it has no fragment provided the start URL has none.

  The netloc is proved for every world. That an entry is absolute is proved for the
  libraries with the properties \<open>fetches_http_only\<close> and \<open>join_has_scheme\<close>, and that it
  has no fragment for those with \<open>join_fragment_free\<close>.
\<close>

theorem out_links_same_netloc:
  assumes "Crawler_init w start mp md dl ua False = Inr c0"
    and "(reach w c0 enq deq (e, q, c) \<and> results c = res)
         \<or> main_crawl w start mp md dl ua False = Some (Inr res)"
    and "n \<in> set (all_out_links res)"
  shows "same_domain w (rstrip_slash start) n
         \<and> (\<exists>b r. urlparse w (rstrip_slash start) = Inr b \<and> urlparse w n = Inr r
                  \<and> netloc r = netloc b
                  \<and> (fetches_http_only w \<and> join_has_scheme w \<longrightarrow> scheme r \<noteq> []))
         \<and> (join_fragment_free w \<and> hash_free (rstrip_slash start) \<longrightarrow> hash_free n)
         \<and> (\<exists>k p link. (k, Page p) \<in> set res \<and> n \<in> set (out_links p)
                  \<and> urljoin w k (before_hash link) = Inr n)"
proof -
  from assms(3) obtain k p where kp: "(k, Page p) \<in> set res" "n \<in> set (out_links p)"
    unfolding in_all_out_links by blast
  from stored_out_link[OF stored_entry[OF assms(1,2) kp(1)] kp(2)] obtain links where
    "link_ok w c0 k links n" ..
  moreover from Crawler_init_fresh[OF assms(1)]
  have f: "start_url c0 = rstrip_slash start" "\<not> allowed_external c0" "visited c0 = {}"
    "results c0 = []" by auto
  ultimately have sd: "same_domain w (rstrip_slash start) n"
    and j: "\<exists>link. urljoin w k (before_hash link) = Inr n"
    by (auto simp: link_ok_def normalize_url_def)
  from sd obtain b r where p: "urlparse w (rstrip_slash start) = Inr b" "urlparse w n = Inr r"
    "netloc r = netloc b"
    by (auto simp: same_domain_def split: sum.splits)
  from store_cases[OF assms(1,2)] obtain enq' deq' e' q' c' where
    r: "reach w c0 enq' deq' (e', q', c')" and s: "results c' = res" by blast
  have "scheme r \<noteq> []" if "fetches_http_only w" "join_has_scheme w"
    using stored_out_link_has_scheme[OF r f(3,4,2) p(1)[folded f(1)] that
            kp(1)[folded s] kp(2)] p(2)
    by auto
  moreover have "hash_free n" if "join_fragment_free w" "hash_free (rstrip_slash start)"
    using stored_out_link_hash_free[OF r f(3,4) that(1) that(2)[folded f(1)]
            kp(1)[folded s] kp(2)] .
  ultimately show ?thesis using sd j p kp by blast
qed

theorem out_links_same_netloc_witness:
  "Crawler_init x_test ''http://x.test/'' 10 1 1 default_user_agent False = Inr x_crawler
   \<and> reach x_test x_crawler [''http://x.test'', ''http://x.test/a'']
        [''http://x.test'', ''http://x.test/a''] (None, [], x_final)
   \<and> results x_final = x_result
   \<and> main_crawl x_test ''http://x.test/'' 10 1 1 default_user_agent False = Some (Inr x_result)
   \<and> ''http://x.test/a'' \<in> set (all_out_links x_result)
   \<and> fetches_http_only x_test \<and> join_has_scheme x_test \<and> join_fragment_free x_test
   \<and> hash_free (rstrip_slash ''http://x.test/'')
   \<and> same_domain x_test (rstrip_slash ''http://x.test/'') ''http://x.test/a''
   \<and> urlparse x_test ''http://x.test/a''
       = Inr \<lparr> scheme = ''http'', netloc = ''x.test'', path = ''/a'', params = [],
               query = [], fragment = [] \<rparr>
   \<and> hash_free ''http://x.test/a''"
proof -
  have s: "results x_final = x_result" by (simp add: x_final_def)
  have m: "''http://x.test/a'' \<in> set (all_out_links x_result)"
    by (simp add: all_out_links_def x_result_def)
  have l: "fetches_http_only x_test" "join_has_scheme x_test" "join_fragment_free x_test"
    unfolding x_test_def by (rule one_page_libraries)+
  have h: "hash_free (rstrip_slash ''http://x.test/'')"
    by (simp add: x_rstrip hash_free_def)
  have p: "urlparse x_test ''http://x.test/a''
       = Inr \<lparr> scheme = ''http'', netloc = ''x.test'', path = ''/a'', params = [],
               query = [], fragment = [] \<rparr>"
    by code_simp
  from out_links_same_netloc[OF x_test_init, of _ _ _ _ _ x_result, OF disjI1,
         OF conjI, OF x_reach_final s m] l h
  have "same_domain x_test (rstrip_slash ''http://x.test/'') ''http://x.test/a''"
    "hash_free ''http://x.test/a''" by blast+
  with x_test_init x_reach_final s x_test_run m l h p show ?thesis by blast
qed

text \<open>
  C2, as stated, fails: a link that resolves to \<^verbatim>\<open>ftp://x.test/f\<close>, of scheme ftp, is
  appended to the \<^verbatim>\<open>out_links\<close> of its page and enqueued (it is popped and fetched in the
  next pass), here with \<^verbatim>\<open>allowed_external=False\<close>.
\<close>

theorem ftp_link_recorded_and_enqueued:
  "find_anchors ftp_site ''index'' = [''ftp://x.test/f'']
   \<and> urljoin ftp_site ''http://x.test'' ''ftp://x.test/f'' = Inr ''ftp://x.test/f''
   \<and> map_sum id scheme (urlparse ftp_site ''ftp://x.test/f'') = Inr ''ftp''
   \<and> main_crawl ftp_site ''http://x.test/'' 10 1 1 default_user_agent False
       = Some (Inr
           [(''http://x.test'',
             Page \<lparr> url = ''http://x.test'', status = 200, headers = [], depth = 0, forms = [],
                    out_links = [''ftp://x.test/f''], error = None \<rparr>),
            (''ftp://x.test/f'',
             Page \<lparr> url = ''ftp://x.test/f'', status = 0, headers = [], depth = 1, forms = [],
                    out_links = [], error = Some ''__fetch_error__:InvalidSchema()'' \<rparr>)])"
  by code_simp

text \<open>
  C2, amended. A link that resolves to a URL starting with \<^verbatim>\<open>mailto:\<close> or
  \<^verbatim>\<open>javascript:\<close> is never appended to the \<^verbatim>\<open>out_links\<close> of a page and never enqueued,
  whatever \<^verbatim>\<open>allowed_external\<close> is and whatever its host: no out-link of a stored page
  and no URL ever enqueued, but possibly the start URL itself, starts with either
  prefix. (URLs of other schemes than http and https are not rejected.)
\<close>

theorem mailto_javascript_never_recorded:
  assumes "Crawler_init w start mp md dl ua ext = Inr c0"
  shows "(((reach w c0 enq deq (e, q, c) \<and> results c = res)
            \<or> main_crawl w start mp md dl ua ext = Some (Inr res))
          \<and> (k, Page p) \<in> set res \<and> n \<in> set (out_links p)
          \<longrightarrow> \<not> startswith n ''mailto:'' \<and> \<not> startswith n ''javascript:'')
       \<and> (reach w c0 enq' deq' (e', q', c') \<and> n' \<in> set enq' \<and> n' \<noteq> rstrip_slash start
          \<longrightarrow> \<not> startswith n' ''mailto:'' \<and> \<not> startswith n' ''javascript:'')"
proof (intro conjI impI)
  assume a: "((reach w c0 enq deq (e, q, c) \<and> results c = res)
            \<or> main_crawl w start mp md dl ua ext = Some (Inr res))
          \<and> (k, Page p) \<in> set res \<and> n \<in> set (out_links p)"
  then have "entry_inv w c0 k (Page p)" using stored_entry[OF assms] by blast
  from stored_out_link[OF this] a obtain links where "link_ok w c0 k links n" by blast
  then show "\<not> startswith n ''mailto:''" "\<not> startswith n ''javascript:''"
    by (simp_all add: link_ok_def)
next
  assume b: "reach w c0 enq' deq' (e', q', c') \<and> n' \<in> set enq' \<and> n' \<noteq> rstrip_slash start"
  from Crawler_init_fresh[OF assms] have "start_url c0 = rstrip_slash start" by simp
  with b reach_enq_filtered[of w c0 enq' deq' e' q' c' n']
  show "\<not> startswith n' ''mailto:''" "\<not> startswith n' ''javascript:''" by simp_all
qed

theorem mailto_javascript_never_recorded_witness:
  "find_anchors mail_site ''index'' = [''mailto:me@x.test'', ''javascript:void(0)'', ''/a'']
   \<and> Crawler_init mail_site ''http://x.test/'' 10 1 1 default_user_agent False = Inr x_crawler
   \<and> main_crawl mail_site ''http://x.test/'' 10 1 1 default_user_agent False = Some (Inr x_result)
   \<and> (''http://x.test'',
        Page \<lparr> url = ''http://x.test'', status = 200, headers = [], depth = 0, forms = [],
               out_links = [''http://x.test/a''], error = None \<rparr>) \<in> set x_result
   \<and> \<not> startswith ''http://x.test/a'' ''mailto:''
   \<and> \<not> startswith ''http://x.test/a'' ''javascript:''
   \<and> Crawler_init x_test ''http://x.test/'' 10 1 1 default_user_agent False = Inr x_crawler
   \<and> reach x_test x_crawler [''http://x.test'', ''http://x.test/a'']
        [''http://x.test'', ''http://x.test/a''] (None, [], x_final)
   \<and> ''http://x.test/a'' \<noteq> rstrip_slash ''http://x.test/''"
proof -
  have a: "find_anchors mail_site ''index'' = [''mailto:me@x.test'', ''javascript:void(0)'', ''/a'']"
    by (simp add: mail_site_def one_page_def site_world_def)
  have m: "(''http://x.test'',
        Page \<lparr> url = ''http://x.test'', status = 200, headers = [], depth = 0, forms = [],
               out_links = [''http://x.test/a''], error = None \<rparr>) \<in> set x_result"
    by (simp add: x_result_def)
  have ne: "''http://x.test/a'' \<noteq> rstrip_slash ''http://x.test/''" by (simp add: x_rstrip)
  from mailto_javascript_never_recorded[OF mail_site_init, where res = x_result
         and k = "''http://x.test''" and n = "''http://x.test/a''"
         and p = "\<lparr> url = ''http://x.test'', status = 200, headers = [], depth = 0, forms = [],
               out_links = [''http://x.test/a''], error = None \<rparr>"] mail_site_run m
  have r1: "\<not> startswith ''http://x.test/a'' ''mailto:''
            \<and> \<not> startswith ''http://x.test/a'' ''javascript:''" by simp
  from mailto_javascript_never_recorded[OF x_test_init, where enq' = "[''http://x.test'', ''http://x.test/a'']"
         and n' = "''http://x.test/a''"] x_reach_final ne
  have "\<not> startswith ''http://x.test/a'' ''mailto:''" by auto
  with a mail_site_init mail_site_run m r1 x_test_init x_reach_final ne show ?thesis by blast
qed

text \<open>
  C3. With a page limit that is not negative, the number of entries of the result
  store is at most \<^verbatim>\<open>max_pages\<close> at every point of a crawl run, and so is the number of
  entries of the dictionary that \<^verbatim>\<open>crawl\<close> returns.
\<close>

theorem results_within_max_pages:
  assumes "Crawler_init w start mp md dl ua ext = Inr c0" and "0 \<le> mp"
    and "(reach w c0 enq deq (e, q, c) \<and> results c = res)
         \<or> main_crawl w start mp md dl ua ext = Some (Inr res)"
  shows "int (length res) \<le> mp"
proof -
  from store_cases[OF assms(1,3)] obtain enq' deq' e' q' c' where
    r: "reach w c0 enq' deq' (e', q', c')" and s: "results c' = res" by blast
  from Crawler_init_fresh[OF assms(1)] have "results c0 = []" "max_pages c0 = mp" by auto
  with reach_size[OF r] assms(2) s show ?thesis by simp
qed

theorem results_within_max_pages_witness:
  "Crawler_init x_test ''http://x.test/'' 10 1 1 default_user_agent False = Inr x_crawler
   \<and> (0::int) \<le> 10
   \<and> reach x_test x_crawler [''http://x.test'', ''http://x.test/a'']
        [''http://x.test'', ''http://x.test/a''] (None, [], x_final)
   \<and> results x_final = x_result
   \<and> main_crawl x_test ''http://x.test/'' 10 1 1 default_user_agent False = Some (Inr x_result)
   \<and> length x_result = 2
   \<and> int (length x_result) \<le> 10"
proof -
  have s: "results x_final = x_result" by (simp add: x_final_def)
  have z: "(0::int) \<le> 10" by simp
  have l: "length x_result = 2" by (simp add: x_result_def)
  from results_within_max_pages[OF x_test_init z disjI1, OF conjI, OF x_reach_final s]
  have a: "int (length x_result) \<le> 10" .
  from results_within_max_pages[OF x_test_init z disjI2, OF x_test_run]
  have "int (length x_result) \<le> 10" .
  with x_test_init z x_reach_final s x_test_run l show ?thesis by blast
qed

text \<open>
  C4, as stated, fails: a URL that the robots gate denies is stored as the record
  \<^verbatim>\<open>{"skipped": "blocked_by_robots"}\<close>, which has no \<^verbatim>\<open>depth\<close> field. The page of
  \<^verbatim>\<open>x.test\<close> links to \<^verbatim>\<open>/admin\<close>, which the robots.txt of the site disallows.
\<close>

theorem robots_denied_record_without_depth:
  "main_crawl guarded_site ''http://x.test/'' 10 1 1 default_user_agent False
     = Some (Inr
         [(''http://x.test'',
           Page \<lparr> url = ''http://x.test'', status = 200, headers = [], depth = 0, forms = [],
                  out_links = [''http://x.test/admin''], error = None \<rparr>),
          (''http://x.test/admin'', Skipped ''blocked_by_robots'')])
   \<and> entry_depth (Skipped ''blocked_by_robots'') = None"
  by code_simp

text \<open>
  C4, amended. Every record in the result store, at every point of a run and in the
  returned dictionary, is of one of two kinds. The record of a URL that the robots gate
  permits has a \<^verbatim>\<open>depth\<close> field, whose value is at most \<^verbatim>\<open>max_depth\<close>. The record of a URL
  that the gate denies is \<^verbatim>\<open>{"skipped": "blocked_by_robots"}\<close> and has no \<^verbatim>\<open>depth\<close> field.
  A pass of the loop that pops an entry of a depth greater than \<^verbatim>\<open>max_depth\<close> drops it
  and changes nothing else; so a pass that stores a record, of either kind, has popped
  an entry of a depth of at most \<^verbatim>\<open>max_depth\<close>.
\<close>

theorem stored_depth_within_max_depth:
  assumes "Crawler_init w start mp md dl ua ext = Inr c0"
    and "(reach w c0 enq deq (e, q, c) \<and> results c = res)
         \<or> main_crawl w start mp md dl ua ext = Some (Inr res)"
    and "(k, en) \<in> set res"
  shows "(if can_fetch (robots c0) k
          then \<exists>p. en = Page p \<and> entry_depth en = Some (depth p) \<and> depth p \<le> md
          else en = Skipped ''blocked_by_robots'' \<and> entry_depth en = None)
         \<and> (max_depth c1 < d \<longrightarrow> crawl_body w ((u, d) # q1) c1 = (None, q1, c1))
         \<and> (crawl_body w ((u, d) # q1) c1 = (e1, q2, c2) \<and> results c2 \<noteq> results c1
              \<longrightarrow> d \<le> max_depth c1)"
proof -
  from stored_entry[OF assms] have inv: "entry_inv w c0 k en" .
  from Crawler_init_fresh[OF assms(1)] have md: "max_depth c0 = md" by simp
  have "if can_fetch (robots c0) k
        then \<exists>p. en = Page p \<and> entry_depth en = Some (depth p) \<and> depth p \<le> md
        else en = Skipped ''blocked_by_robots'' \<and> entry_depth en = None"
    using inv md by (cases en) (auto simp: entry_inv_def entry_depth_def)
  moreover have "max_depth c1 < d \<longrightarrow> crawl_body w ((u, d) # q1) c1 = (None, q1, c1)"
    by (simp add: crawl_body_def)
  moreover have "crawl_body w ((u, d) # q1) c1 = (e1, q2, c2) \<and> results c2 \<noteq> results c1
              \<longrightarrow> d \<le> max_depth c1"
    by (auto simp: crawl_body_def)
  ultimately show ?thesis by blast
qed

theorem stored_depth_within_max_depth_witness:
  "Crawler_init guarded_site ''http://x.test/'' 10 1 1 default_user_agent False
     = Inr guarded_crawler
   \<and> main_crawl guarded_site ''http://x.test/'' 10 1 1 default_user_agent False
       = Some (Inr guarded_result)
   \<and> (''http://x.test/admin'', Skipped ''blocked_by_robots'') \<in> set guarded_result
   \<and> \<not> can_fetch (robots guarded_crawler) ''http://x.test/admin''
   \<and> entry_depth (Skipped ''blocked_by_robots'') = None
   \<and> (''http://x.test'',
        Page \<lparr> url = ''http://x.test'', status = 200, headers = [], depth = 0, forms = [],
               out_links = [''http://x.test/admin''], error = None \<rparr>) \<in> set guarded_result
   \<and> can_fetch (robots guarded_crawler) ''http://x.test''
   \<and> entry_depth
        (Page \<lparr> url = ''http://x.test'', status = 200, headers = [], depth = 0, forms = [],
                out_links = [''http://x.test/admin''], error = None \<rparr>) = Some 0
   \<and> (0::int) \<le> 1
   \<and> max_depth guarded_crawler < 2
   \<and> crawl_body guarded_site [(''http://x.test/deep'', 2)] guarded_crawler
       = (None, [], guarded_crawler)"
proof -
  have m1: "(''http://x.test/admin'', Skipped ''blocked_by_robots'') \<in> set guarded_result"
    by (simp add: guarded_result_def)
  have m2: "(''http://x.test'',
        Page \<lparr> url = ''http://x.test'', status = 200, headers = [], depth = 0, forms = [],
               out_links = [''http://x.test/admin''], error = None \<rparr>) \<in> set guarded_result"
    by (simp add: guarded_result_def)
  have f1: "\<not> can_fetch (robots guarded_crawler) ''http://x.test/admin''"
    by (simp add: guarded_crawler_def can_fetch_def admin_rules_def startswith_def)
  have f2: "can_fetch (robots guarded_crawler) ''http://x.test''"
    by (simp add: guarded_crawler_def can_fetch_def admin_rules_def startswith_def)
  have d: "max_depth guarded_crawler < 2" by (simp add: guarded_crawler_def x_crawler_def)
  from stored_depth_within_max_depth[OF guarded_site_init disjI2, OF guarded_site_run m1,
         of guarded_crawler 2 "''http://x.test/deep''" "[]"] f1 d
  have "entry_depth (Skipped ''blocked_by_robots'') = None"
    "crawl_body guarded_site [(''http://x.test/deep'', 2)] guarded_crawler
       = (None, [], guarded_crawler)"
    by simp_all
  moreover
  from stored_depth_within_max_depth[OF guarded_site_init disjI2, OF guarded_site_run m2] f2
  have "entry_depth
        (Page \<lparr> url = ''http://x.test'', status = 200, headers = [], depth = 0, forms = [],
                out_links = [''http://x.test/admin''], error = None \<rparr>) = Some 0"
    "(0::int) \<le> 1"
    by simp_all
  ultimately show ?thesis
    using guarded_site_init guarded_site_run m1 m2 f1 f2 d by blast
qed

text \<open>
  C5. Within one crawl run on a new crawler, at every point: the URLs enqueued so far
  are the URLs popped so far followed by those still in the queue; no URL occurs twice
  among them, so that none is enqueued, popped or fetched twice; the visited set is
  exactly the set of the enqueued URLs; the keys of the result store are distinct and
  are popped URLs; the URL a pass is about to pop has not been popped and is not a key
  yet; and a pass enqueues distinct URLs that were not in the visited set and adds
  exactly those to it.
\<close>

theorem urls_enqueued_once:
  assumes "Crawler_init w start mp md dl ua ext = Inr c0" and "reach w c0 enq deq (e, q, c)"
  shows "enq = deq @ map fst q \<and> distinct enq \<and> visited c = set enq \<and> distinct deq
       \<and> distinct (map fst (results c)) \<and> set (map fst (results c)) \<subseteq> set deq
       \<and> (e = None \<and> loop_cond q c
            \<longrightarrow> fst (hd q) \<notin> set deq \<and> fst (hd q) \<notin> set (map fst (results c)))
       \<and> (e = None \<and> loop_cond q c \<and> crawl_body w q c = (e', q', c')
            \<longrightarrow> (\<exists>pushed. q' = tl q @ map (\<lambda>n. (n, snd (hd q) + 1)) pushed
                    \<and> enq @ map fst (drop (length q - 1) q') = enq @ pushed
                    \<and> distinct pushed \<and> set pushed \<inter> visited c = {}
                    \<and> visited c' = visited c \<union> set pushed))"
proof -
  from Crawler_init_fresh[OF assms(1)] have f: "visited c0 = {}" "results c0 = []" by auto
  from reach_queue[OF assms(2) f(1)]
  have a: "enq = deq @ map fst q" "distinct enq" "visited c = set enq" by blast+
  from reach_keys[OF assms(2) f(2)]
  have b: "distinct (map fst (results c))" "set (map fst (results c)) \<subseteq> set deq" by blast+
  from a have d: "distinct deq" by simp
  have h: "fst (hd q) \<notin> set deq \<and> fst (hd q) \<notin> set (map fst (results c))"
    if "e = None \<and> loop_cond q c"
  proof -
    from that loop_cond_Cons obtain u dd q1 where q: "q = (u, dd) # q1" by blast
    with a have "u \<notin> set deq" by auto
    with b(2) q show ?thesis by auto
  qed
  have p: "\<exists>pushed. q' = tl q @ map (\<lambda>n. (n, snd (hd q) + 1)) pushed
                    \<and> enq @ map fst (drop (length q - 1) q') = enq @ pushed
                    \<and> distinct pushed \<and> set pushed \<inter> visited c = {}
                    \<and> visited c' = visited c \<union> set pushed"
    if t: "e = None \<and> loop_cond q c \<and> crawl_body w q c = (e', q', c')"
  proof -
    from t loop_cond_Cons obtain u dd q1 where q: "q = (u, dd) # q1" by blast
    from t q have "crawl_body w ((u, dd) # q1) c = (e', q', c')" by simp
    from crawl_body_pushed[OF this] obtain pushed where
      pu: "q' = q1 @ map (\<lambda>n. (n, dd + 1)) pushed" "distinct pushed"
          "set pushed \<inter> visited c = {}" "visited c' = visited c \<union> set pushed" by blast
    have "map fst (drop (length q - 1) q') = pushed" using pu(1) q by (simp add: comp_def)
    with pu q show ?thesis by auto
  qed
  from a b d h p show ?thesis by blast
qed

theorem urls_enqueued_once_witness:
  "Crawler_init x_test ''http://x.test/'' 10 1 1 default_user_agent False = Inr x_crawler
   \<and> reach x_test x_crawler [''http://x.test'', ''http://x.test/a''] [''http://x.test'']
        (None, [(''http://x.test/a'', 1)], x_mid)
   \<and> loop_cond [(''http://x.test/a'', 1)] x_mid
   \<and> crawl_body x_test [(''http://x.test/a'', 1)] x_mid = (None, [], x_final)
   \<and> visited x_mid = set [''http://x.test'', ''http://x.test/a'']
   \<and> distinct (map fst (results x_mid))
   \<and> fst (hd [(''http://x.test/a'', 1 :: int)]) \<notin> set (map fst (results x_mid))
   \<and> visited x_final = visited x_mid"
proof -
  note t = urls_enqueued_once[OF x_test_init x_reach_mid, where e' = None and q' = "[]"
             and c' = x_final]
  from t have "visited x_mid = set [''http://x.test'', ''http://x.test/a'']"
    "distinct (map fst (results x_mid))" by blast+
  moreover from t x_loop_cond_mid
  have "fst (hd [(''http://x.test/a'', 1 :: int)]) \<notin> set (map fst (results x_mid))" by blast
  moreover from t x_loop_cond_mid x_step2 have "visited x_final = visited x_mid" by auto
  ultimately show ?thesis using x_test_init x_reach_mid x_loop_cond_mid x_step2 by blast
qed

text \<open>
  C6, as stated, fails: the fetch of \<^verbatim>\<open>http://x.test/a\<close> completes with status 404, and
  the stored record has its \<^verbatim>\<open>error\<close> set, to the body of the response.
\<close>

theorem not_found_sets_error:
  "session_get x_test ''http://x.test/a''
     = Inr \<lparr> status_code = 404, resp_text = ''Not Found'', resp_headers = [] \<rparr>
   \<and> main_crawl x_test ''http://x.test/'' 10 1 1 default_user_agent False = Some (Inr x_result)
   \<and> map_of x_result ''http://x.test/a''
       = Some (Page \<lparr> url = ''http://x.test/a'', status = 404, headers = [], depth = 1,
                      forms = [], out_links = [], error = Some ''Not Found'' \<rparr>)"
  by code_simp

text \<open>
  C6, amended. The \<^verbatim>\<open>error\<close> field of a stored record is set not only when the fetch
  failed at the transport level. Every record in the result store, at every point of a
  run and in the returned dictionary, is of one of two kinds. A URL that the robots
  gate denies is not fetched; its record is \<^verbatim>\<open>{"skipped": "blocked_by_robots"}\<close>, without
  an \<^verbatim>\<open>error\<close> field. A URL that the gate permits is fetched, and its record is a page
  record: when the fetch completes with a status other than 200, the record has that
  status, empty \<^verbatim>\<open>out_links\<close> and \<^verbatim>\<open>forms\<close>, and the response body as its \<^verbatim>\<open>error\<close>; when
  the fetch fails at the transport level, the record has status 0, empty \<^verbatim>\<open>out_links\<close>
  and \<^verbatim>\<open>forms\<close>, and the marker followed by the text of the exception as its \<^verbatim>\<open>error\<close>;
  and its \<^verbatim>\<open>error\<close> is absent exactly when the fetch completes with status 200 and a
  body that does not start with the marker. So \<^verbatim>\<open>error\<close> is set for a completed fetch
  with a status other than 200 as it is for a transport failure.
\<close>

theorem error_set_whenever_unparsed:
  assumes "Crawler_init w start mp md dl ua ext = Inr c0"
    and "(reach w c0 enq deq (e, q, c) \<and> results c = res)
         \<or> main_crawl w start mp md dl ua ext = Some (Inr res)"
    and "(k, en) \<in> set res"
  shows "if \<not> can_fetch (robots c0) k then en = Skipped ''blocked_by_robots''
         else \<exists>p. en = Page p
           \<and> (\<forall>resp. session_get w k = Inr resp \<and> status_code resp \<noteq> 200
                 \<longrightarrow> status p = status_code resp \<and> error p = Some (resp_text resp)
                     \<and> out_links p = [] \<and> forms p = [])
           \<and> (\<forall>r. session_get w k = Inl r
                 \<longrightarrow> status p = 0 \<and> error p = Some (''__fetch_error__:'' @ r)
                     \<and> out_links p = [] \<and> forms p = [])
           \<and> (error p = None \<longleftrightarrow>
                 (\<exists>resp. session_get w k = Inr resp \<and> status_code resp = 200
                         \<and> \<not> startswith (resp_text resp) ''__fetch_error__''))"
proof (cases en)
  case (Skipped r)
  with stored_entry[OF assms] show ?thesis by (simp add: entry_inv_def)
next
  case (Page p)
  note inv = stored_entry[OF assms, unfolded Page entry_inv_def, simplified]
  show ?thesis
  proof (cases "session_get w k")
    case (Inl r')
    with inv Page show ?thesis by (auto simp: fetch_def startswith_def)
  next
    case (Inr resp')
    with inv Page show ?thesis by (auto simp: fetch_def split: if_splits)
  qed
qed

theorem error_set_whenever_unparsed_witness:
  "Crawler_init x_test ''http://x.test/'' 10 1 1 default_user_agent False = Inr x_crawler
   \<and> main_crawl x_test ''http://x.test/'' 10 1 1 default_user_agent False = Some (Inr x_result)
   \<and> (''http://x.test/a'',
        Page \<lparr> url = ''http://x.test/a'', status = 404, headers = [], depth = 1, forms = [],
               out_links = [], error = Some ''Not Found'' \<rparr>) \<in> set x_result
   \<and> can_fetch (robots x_crawler) ''http://x.test/a''
   \<and> session_get x_test ''http://x.test/a''
       = Inr \<lparr> status_code = 404, resp_text = ''Not Found'', resp_headers = [] \<rparr>
   \<and> Crawler_init ftp_site ''http://x.test/'' 10 1 1 default_user_agent False = Inr x_crawler
   \<and> main_crawl ftp_site ''http://x.test/'' 10 1 1 default_user_agent False = Some (Inr ftp_result)
   \<and> (''ftp://x.test/f'',
        Page \<lparr> url = ''ftp://x.test/f'', status = 0, headers = [], depth = 1, forms = [],
               out_links = [], error = Some ''__fetch_error__:InvalidSchema()'' \<rparr>)
       \<in> set ftp_result
   \<and> can_fetch (robots x_crawler) ''ftp://x.test/f''
   \<and> session_get ftp_site ''ftp://x.test/f'' = Inl ''InvalidSchema()''
   \<and> Crawler_init guarded_site ''http://x.test/'' 10 1 1 default_user_agent False
       = Inr guarded_crawler
   \<and> main_crawl guarded_site ''http://x.test/'' 10 1 1 default_user_agent False
       = Some (Inr guarded_result)
   \<and> (''http://x.test/admin'', Skipped ''blocked_by_robots'') \<in> set guarded_result
   \<and> \<not> can_fetch (robots guarded_crawler) ''http://x.test/admin''"
proof -
  have m1: "(''http://x.test/a'',
        Page \<lparr> url = ''http://x.test/a'', status = 404, headers = [], depth = 1, forms = [],
               out_links = [], error = Some ''Not Found'' \<rparr>) \<in> set x_result"
    by (simp add: x_result_def)
  have g1: "session_get x_test ''http://x.test/a''
       = Inr \<lparr> status_code = 404, resp_text = ''Not Found'', resp_headers = [] \<rparr>"
    by code_simp
  have m2: "(''ftp://x.test/f'',
        Page \<lparr> url = ''ftp://x.test/f'', status = 0, headers = [], depth = 1, forms = [],
               out_links = [], error = Some ''__fetch_error__:InvalidSchema()'' \<rparr>)
       \<in> set ftp_result"
    by (simp add: ftp_result_def)
  have g2: "session_get ftp_site ''ftp://x.test/f'' = Inl ''InvalidSchema()''"
    by code_simp
  have m3: "(''http://x.test/admin'', Skipped ''blocked_by_robots'') \<in> set guarded_result"
    by (simp add: guarded_result_def)
  have f: "can_fetch (robots x_crawler) ''http://x.test/a''"
    "can_fetch (robots x_crawler) ''ftp://x.test/f''"
    "\<not> can_fetch (robots guarded_crawler) ''http://x.test/admin''"
    by (simp_all add: x_crawler_def guarded_crawler_def can_fetch_def admin_rules_def
          startswith_def)
  from error_set_whenever_unparsed[OF x_test_init disjI2, OF x_test_run m1] g1 f(1)
  have "error \<lparr> url = ''http://x.test/a'', status = 404, headers = [], depth = 1, forms = [],
               out_links = [], error = Some ''Not Found'' \<rparr> = Some ''Not Found''"
    by simp
  moreover from error_set_whenever_unparsed[OF ftp_site_init disjI2, OF ftp_site_run m2] g2 f(2)
  have "error \<lparr> url = ''ftp://x.test/f'', status = 0, headers = [], depth = 1, forms = [],
               out_links = [], error = Some ''__fetch_error__:InvalidSchema()'' \<rparr>
        = Some ''__fetch_error__:InvalidSchema()''"
    by simp
  moreover from error_set_whenever_unparsed[OF guarded_site_init disjI2, OF guarded_site_run m3]
  have "Skipped ''blocked_by_robots'' = Skipped ''blocked_by_robots''"
    by simp
  ultimately show ?thesis
    using x_test_init x_test_run m1 g1 ftp_site_init ftp_site_run m2 g2
      guarded_site_init guarded_site_run m3 f by blast
qed

text \<open>
  When \<^verbatim>\<open>set_url\<close> or \<^verbatim>\<open>read\<close> raises, the \<^verbatim>\<open>except\<close> clause of the constructor sets
  \<^verbatim>\<open>rp\<close> to \<^verbatim>\<open>None\<close>: the constructor succeeds, the checker permits every URL at every
  point of the run, and no record \<^verbatim>\<open>{"skipped": ...}\<close> is ever stored.
\<close>

lemma robots_exception_permits_all:
  assumes "Crawler_init w start mp md dl ua ext = Inr c0"
    and "urlparse w (rstrip_slash start) = Inr parsed"
    and "robots_read w (robots_url parsed) = Inl err"
    and "(reach w c0 enq deq (e, q, c) \<and> results c = res)
         \<or> main_crawl w start mp md dl ua ext = Some (Inr res)"
  shows "rp (robots c0) = None \<and> can_fetch (robots c0) u
         \<and> (reach w c0 enq deq (e, q, c) \<longrightarrow> robots c = robots c0 \<and> can_fetch (robots c) u)
         \<and> (\<forall>k r. (k, Skipped r) \<notin> set res)"
proof -
  from assms(1-3) have r0: "rp (robots c0) = None"
    by (auto simp: Crawler_init_def RobotsChecker_init_def split: sum.splits)
  then have cf: "can_fetch (robots c0) u" for u by (simp add: can_fetch_def)
  have fr: "robots c = robots c0" if "reach w c0 enq deq (e, q, c)"
    using frame_config(7)[OF reach_frame[OF that]] .
  have "(k, Skipped r) \<notin> set res" for k r
  proof
    assume "(k, Skipped r) \<in> set res"
    from stored_entry[OF assms(1,4) this] cf show False by (simp add: entry_inv_def)
  qed
  then have "\<forall>k r. (k, Skipped r) \<notin> set res" by blast
  moreover have "reach w c0 enq deq (e, q, c) \<longrightarrow> robots c = robots c0 \<and> can_fetch (robots c) u"
    using fr cf by simp
  ultimately show ?thesis using r0 cf by blast
qed

text \<open>
  C7 fails on the code. The request for \<^verbatim>\<open>http://x.test/robots.txt\<close> is answered with the
  HTTP status 503, or 403: \<^verbatim>\<open>RobotFileParser.read()\<close> catches the \<^verbatim>\<open>HTTPError\<close> and
  raises nothing, so the \<^verbatim>\<open>except\<close> clause of the constructor, which would set \<^verbatim>\<open>rp\<close> to
  \<^verbatim>\<open>None\<close>, is not reached. The checker denies the start URL, and the crawl of the
  scenario returns the single record \<^verbatim>\<open>{"skipped": "blocked_by_robots"}\<close>; with the status
  404 the crawl is that of the scenario.
\<close>

theorem robots_http_error_denies_all:
  "map_sum id (\<lambda>c. can_fetch (robots c) ''http://x.test'')
     (Crawler_init (robots_status 503) ''http://x.test/'' 10 1 1 default_user_agent False)
     = Inr False
   \<and> main_crawl (robots_status 503) ''http://x.test/'' 10 1 1 default_user_agent False
       = Some (Inr [(''http://x.test'', Skipped ''blocked_by_robots'')])
   \<and> map_sum id (\<lambda>c. can_fetch (robots c) ''http://x.test'')
       (Crawler_init (robots_status 403) ''http://x.test/'' 10 1 1 default_user_agent False)
       = Inr False
   \<and> main_crawl (robots_status 403) ''http://x.test/'' 10 1 1 default_user_agent False
       = Some (Inr [(''http://x.test'', Skipped ''blocked_by_robots'')])
   \<and> main_crawl (robots_status 404) ''http://x.test/'' 10 1 1 default_user_agent False
       = Some (Inr x_result)"
  by code_simp

text \<open>
  C8, as stated, fails: crawling from \<^verbatim>\<open>http://a.test\<close> with external links allowed, the
  URL \<^verbatim>\<open>http://b.test/secret\<close> is fetched and stored as a page, although the robots.txt
  of its own origin denies it; the helper asked the robots.txt of \<^verbatim>\<open>a.test\<close>.
\<close>

theorem other_origin_judged_by_start_policy:
  "Crawler_init two_sites ''http://a.test'' 10 1 1 default_user_agent True = Inr a_crawler
   \<and> can_fetch (robots a_crawler) ''http://b.test/secret''
   \<and> spec_can_fetch two_sites default_user_agent ''http://b.test/secret'' = Inr False
   \<and> main_crawl two_sites ''http://a.test'' 10 1 1 default_user_agent True
       = Some (Inr
           [(''http://a.test'',
             Page \<lparr> url = ''http://a.test'', status = 200, headers = [], depth = 0, forms = [],
                    out_links = [''http://b.test/secret''], error = None \<rparr>),
            (''http://b.test/secret'',
             Page \<lparr> url = ''http://b.test/secret'', status = 200, headers = [], depth = 1,
                    forms = [], out_links = [], error = None \<rparr>)])"
proof -
  have "can_fetch (robots a_crawler) ''http://b.test/secret''
   \<and> spec_can_fetch two_sites default_user_agent ''http://b.test/secret'' = Inr False
   \<and> main_crawl two_sites ''http://a.test'' 10 1 1 default_user_agent True
       = Some (Inr
           [(''http://a.test'',
             Page \<lparr> url = ''http://a.test'', status = 200, headers = [], depth = 0, forms = [],
                    out_links = [''http://b.test/secret''], error = None \<rparr>),
            (''http://b.test/secret'',
             Page \<lparr> url = ''http://b.test/secret'', status = 200, headers = [], depth = 1,
                    forms = [], out_links = [], error = None \<rparr>)])"
    by code_simp
  with a_crawler_init show ?thesis by blast
qed

text \<open>
  C8, amended. At every point of a run the robots helper is the one the constructor
  built; its answer for any URL, of whatever origin, is computed from the one
  robots.txt at the scheme and netloc of the start URL (read once, in the
  constructor, before any query); and a pass of the loop body does not depend on what
  reading a robots.txt would give, so that nothing is fetched again.
\<close>

theorem robots_policy_of_start_url:
  assumes "Crawler_init w start mp md dl ua ext = Inr c0" and "reach w c0 enq deq (e, q, c)"
  shows "robots c = robots c0
       \<and> (\<exists>parsed. urlparse w (rstrip_slash start) = Inr parsed
            \<and> can_fetch (robots c) u
                = (case robots_read w (robots_url parsed) of
                     Inl x \<Rightarrow> True
                   | Inr rules \<Rightarrow> (case rules ua u of Inl x \<Rightarrow> True | Inr b \<Rightarrow> b)))
       \<and> crawl_body (w\<lparr>robots_read := rr\<rparr>) q c = crawl_body w q c"
proof -
  from frame_config(7)[OF reach_frame[OF assms(2)]] have rc: "robots c = robots c0" .
  from Crawler_init_fresh[OF assms(1)]
  have "RobotsChecker_init w (rstrip_slash start) ua = Inr (robots c0)" by simp
  then obtain parsed where p: "urlparse w (rstrip_slash start) = Inr parsed"
    and r0: "robots c0 = \<lparr> rp = (case robots_read w (robots_url parsed) of
                                   Inl e \<Rightarrow> None | Inr rules \<Rightarrow> Some rules),
                           rc_user_agent = ua \<rparr>"
    by (auto simp: RobotsChecker_init_def split: sum.splits)
  have "can_fetch (robots c0) u
          = (case robots_read w (robots_url parsed) of
               Inl x \<Rightarrow> True
             | Inr rules \<Rightarrow> (case rules ua u of Inl x \<Rightarrow> True | Inr b \<Rightarrow> b))"
    unfolding r0 by (simp add: can_fetch_def split: sum.splits)
  with rc p crawl_body_robots_read show ?thesis by auto
qed

theorem robots_policy_of_start_url_witness:
  "Crawler_init two_sites ''http://a.test'' 10 1 1 default_user_agent True = Inr a_crawler
   \<and> reach two_sites a_crawler [''http://a.test'', ''http://b.test/secret''] [''http://a.test'']
        (None, [(''http://b.test/secret'', 1)], a_mid)
   \<and> robots a_mid = robots a_crawler
   \<and> urlparse two_sites (rstrip_slash ''http://a.test'')
       = Inr \<lparr> scheme = ''http'', netloc = ''a.test'', path = [], params = [], query = [],
               fragment = [] \<rparr>
   \<and> can_fetch (robots a_mid) ''http://b.test/secret''
   \<and> crawl_body (two_sites\<lparr>robots_read := no_robots\<rparr>) [(''http://b.test/secret'', 1)] a_mid
       = crawl_body two_sites [(''http://b.test/secret'', 1)] a_mid"
proof -
  have p: "urlparse two_sites (rstrip_slash ''http://a.test'')
       = Inr \<lparr> scheme = ''http'', netloc = ''a.test'', path = [], params = [], query = [],
               fragment = [] \<rparr>"
    by (simp add: two_sites_def site_world_def a_rstrip a_parse)
  note t = robots_policy_of_start_url[OF a_crawler_init a_reach_mid,
             where u = "''http://b.test/secret''" and rr = no_robots]
  from t have r: "robots a_mid = robots a_crawler"
    and b: "crawl_body (two_sites\<lparr>robots_read := no_robots\<rparr>) [(''http://b.test/secret'', 1)] a_mid
       = crawl_body two_sites [(''http://b.test/secret'', 1)] a_mid" by blast+
  from t obtain parsed where
    pp: "urlparse two_sites (rstrip_slash ''http://a.test'') = Inr parsed"
    and cf: "can_fetch (robots a_mid) ''http://b.test/secret''
             = (case robots_read two_sites (robots_url parsed) of
                  Inl x \<Rightarrow> True
                | Inr rules \<Rightarrow>
                    (case rules default_user_agent ''http://b.test/secret'' of
                       Inl x \<Rightarrow> True | Inr b \<Rightarrow> b))"
    by blast
  from pp p have pe: "parsed = \<lparr> scheme = ''http'', netloc = ''a.test'', path = [],
      params = [], query = [], fragment = [] \<rparr>" by simp
  have "robots_read two_sites (robots_url parsed) = Inr (\<lambda>ua url. Inr True)"
    unfolding pe by (simp add: robots_url_def two_sites_def site_world_def)
  with cf have "can_fetch (robots a_mid) ''http://b.test/secret''" by simp
  with a_crawler_init a_reach_mid r p b show ?thesis by blast
qed




text \<open>
  C10. When a fetch completes with status 200 and a body that begins with
  \<^verbatim>\<open>__fetch_error__\<close>, the pass of the loop records the page as it records a failed
  fetch: nothing is extracted or enqueued, \<^verbatim>\<open>out_links\<close> and \<^verbatim>\<open>forms\<close> stay empty and the
  body is stored as the \<^verbatim>\<open>error\<close> of the record. The prefix is the marker with which
  \<^verbatim>\<open>fetch\<close> reports a transport failure in band.
\<close>

theorem marked_body_recorded_as_failure:
  assumes "session_get w u = Inr resp" and "status_code resp = 200"
    and "startswith (resp_text resp) ''__fetch_error__''"
    and "d \<le> max_depth c" and "can_fetch (robots c) u"
  shows "crawl_body w ((u, d) # q1) c
         = (sleep w (delay c), q1,
            c\<lparr>results := dict_set (results c) u
                 (Page \<lparr> url = u, status = 200, headers = resp_headers resp, depth = d,
                         forms = [], out_links = [], error = Some (resp_text resp) \<rparr>)\<rparr>)
       \<and> (session_get w v = Inl r
            \<longrightarrow> fetch w v = (0, ''__fetch_error__:'' @ r, [])
                \<and> startswith (fst (snd (fetch w v))) ''__fetch_error__'')"
  using assms by (simp add: crawl_body_def fetch_def startswith_def)

theorem marked_body_recorded_as_failure_witness:
  "session_get marker_site ''http://x.test''
     = Inr \<lparr> status_code = 200, resp_text = ''__fetch_error__ is a word of this page'',
             resp_headers = [] \<rparr>
   \<and> startswith ''__fetch_error__ is a word of this page'' ''__fetch_error__''
   \<and> find_anchors marker_site ''__fetch_error__ is a word of this page'' = [''/a'']
   \<and> 0 \<le> max_depth x_crawler
   \<and> can_fetch (robots x_crawler) ''http://x.test''
   \<and> crawl_body marker_site [(''http://x.test'', 0)] (x_crawler\<lparr>visited := {''http://x.test''}\<rparr>)
       = (None, [], x_crawler\<lparr>visited := {''http://x.test''}, results := marker_result\<rparr>)
   \<and> main_crawl marker_site ''http://x.test/'' 10 1 1 default_user_agent False
       = Some (Inr marker_result)
   \<and> session_get marker_site ''ftp://x.test/f'' = Inl ''InvalidSchema()''
   \<and> fetch marker_site ''ftp://x.test/f'' = (0, ''__fetch_error__:InvalidSchema()'', [])"
proof -
  have g: "session_get marker_site ''http://x.test''
     = Inr \<lparr> status_code = 200, resp_text = ''__fetch_error__ is a word of this page'',
             resp_headers = [] \<rparr>"
    by code_simp
  have s: "startswith ''__fetch_error__ is a word of this page'' ''__fetch_error__''"
    by (simp add: startswith_def)
  have a: "find_anchors marker_site ''__fetch_error__ is a word of this page'' = [''/a'']"
    by (simp add: marker_site_def site_world_def)
  have d: "0 \<le> max_depth (x_crawler\<lparr>visited := {''http://x.test''}\<rparr>)"
    "0 \<le> max_depth x_crawler" by (simp_all add: x_crawler_def)
  have c: "can_fetch (robots (x_crawler\<lparr>visited := {''http://x.test''}\<rparr>)) ''http://x.test''"
    "can_fetch (robots x_crawler) ''http://x.test''"
    by (simp_all add: can_fetch_def x_crawler_def)
  have f: "session_get marker_site ''ftp://x.test/f'' = Inl ''InvalidSchema()''"
    by code_simp
  have st: "status_code \<lparr> status_code = 200,
      resp_text = ''__fetch_error__ is a word of this page'', resp_headers = [] \<rparr> = 200"
    by simp
  have sw: "startswith (resp_text \<lparr> status_code = 200,
      resp_text = ''__fetch_error__ is a word of this page'', resp_headers = [] \<rparr>)
      ''__fetch_error__''"
    using s by simp
  note t = marked_body_recorded_as_failure[where ?q1.0 = "[]" and v = "''ftp://x.test/f''"
             and r = "''InvalidSchema()''", OF g st sw d(1) c(1)]
  from t have "crawl_body marker_site [(''http://x.test'', 0)]
                 (x_crawler\<lparr>visited := {''http://x.test''}\<rparr>)
       = (None, [], x_crawler\<lparr>visited := {''http://x.test''}, results := marker_result\<rparr>)"
    by (simp add: x_crawler_def marker_site_def site_world_def py_sleep_def marker_result_def)
  moreover from t f
  have "fetch marker_site ''ftp://x.test/f'' = (0, ''__fetch_error__:InvalidSchema()'', [])"
    by simp
  ultimately show ?thesis using g s a d(2) c(2) marker_site_run f by blast
qed

end
